theory Spec2Isabelle
  imports Complex_Main
begin

section \<open>The program\<close>

text \<open>
  The repository is a chat bot that keeps counters in a spreadsheet of four sheets.  Three
  commands add an amount to the counters of named rows (\<^verbatim>\<open>handleAdd\<close>, \<^verbatim>\<open>handleOfficerAdd\<close>,
  \<^verbatim>\<open>handleTryoutAdd\<close>); the fourth, \<^verbatim>\<open>handleQuotaCheck\<close>, walks the rows 7 to 13 and 19 to 40 of
  every sheet, increments the counter in column F of the rows that missed their quota,
  and resets the weekly counters.  Each handler stages the writes of a sheet in a list and
  sends the list in one call.

  There are two source files, \<^verbatim>\<open>index.js\<close> and a second one (\<^verbatim>\<open>src/unnamed/part_000\<close>).
  They are the same up to \<^verbatim>\<open>handleQuotaCheck\<close>, and both versions of it are modelled: the
  one of \<^verbatim>\<open>index.js\<close> under the names of the source, the one of the second file with the
  suffix \<open>2\<close>.
\<close>

section \<open>JavaScript values and the built-ins the handlers call\<close>

text \<open>
  A cell read from the spreadsheet is an untyped JavaScript value.  The handlers test
  cells with \<^verbatim>\<open>===\<close>, \<^verbatim>\<open>||\<close>, \<^verbatim>\<open>String\<close>, \<^verbatim>\<open>parseInt\<close>, \<^verbatim>\<open>Number\<close>,
  \<^verbatim>\<open>trim\<close> and \<^verbatim>\<open>toUpperCase\<close>, so the value type carries the four kinds of value these
  distinguish: an absent cell (\<^verbatim>\<open>undefined\<close>), a boolean, a string and a number.

  Modelling limits, stated once: a string is a list of code units below 256, so the
  characters beyond U+00FF do not occur; a number cell is an exact integer and the result
  of \<^verbatim>\<open>Number\<close> an exact rational, so the rounding of IEEE doubles (magnitudes above \<open>2^53\<close>,
  long fractions) and the sign of zero are not represented.
\<close>

datatype jsval = JUndefined | JBool bool | JStr string | JNum int

datatype jsnum = Fin rat | NaN | PosInf | NegInf

text \<open>Truthiness, as used by \<^verbatim>\<open>v || d\<close> and \<^verbatim>\<open>!v\<close>.\<close>

fun truthy :: "jsval \<Rightarrow> bool" where
  "truthy JUndefined = False"
| "truthy (JBool b) = b"
| "truthy (JStr s) = (s \<noteq> [])"
| "truthy (JNum n) = (n \<noteq> 0)"

text \<open>
  The white space that \<^verbatim>\<open>trim\<close>, \<^verbatim>\<open>parseInt\<close> and \<^verbatim>\<open>Number\<close> strip: tab, line feed, vertical
  tab, form feed, carriage return, space, and the no-break space U+00A0.  These are all the
  white space and line terminator characters of JavaScript below U+0100.
\<close>

definition isWhiteSpace :: "char \<Rightarrow> bool" where
  "isWhiteSpace c = (of_char c \<in> {9, 10, 11, 12, 13, 32, 160 :: nat})"

definition trimStart :: "string \<Rightarrow> string" where
  "trimStart s = dropWhile isWhiteSpace s"

definition trim :: "string \<Rightarrow> string" where
  "trim s = rev (dropWhile isWhiteSpace (rev (dropWhile isWhiteSpace s)))"

text \<open>
  \<^verbatim>\<open>toUpperCase\<close> on the letters a to z.  The case mapping of the letters beyond ASCII is left
  out; none of them has T, R, U or E as its upper case, so the comparison with \<^verbatim>\<open>'TRUE'\<close>
  in \<^verbatim>\<open>isChecked\<close> is not affected.
\<close>

definition upperChar :: "char \<Rightarrow> char" where
  "upperChar c = (if 97 \<le> (of_char c :: nat) \<and> (of_char c :: nat) \<le> 122
                  then char_of ((of_char c :: nat) - 32) else c)"

definition toUpperCase :: "string \<Rightarrow> string" where
  "toUpperCase s = map upperChar s"

subsection \<open>Digits\<close>

definition digitChar :: "nat \<Rightarrow> char" where
  "digitChar d = char_of (48 + d)"

text \<open>The value of a character as a digit in any radix up to 36; \<open>None\<close> for a non-digit.\<close>

definition digitVal :: "char \<Rightarrow> nat option" where
  "digitVal c =
     (let n = (of_char c :: nat) in
      if 48 \<le> n \<and> n \<le> 57 then Some (n - 48)
      else if 97 \<le> n \<and> n \<le> 122 then Some (n - 87)
      else if 65 \<le> n \<and> n \<le> 90 then Some (n - 55)
      else None)"

definition isRadixDigit :: "nat \<Rightarrow> char \<Rightarrow> bool" where
  "isRadixDigit R c = (case digitVal c of None \<Rightarrow> False | Some d \<Rightarrow> d < R)"

definition radixValue :: "nat \<Rightarrow> string \<Rightarrow> int" where
  "radixValue R ds =
     foldl (\<lambda>a c. int R * a + (case digitVal c of None \<Rightarrow> 0 | Some d \<Rightarrow> int d)) 0 ds"

fun digitsOf :: "nat \<Rightarrow> string" where
  "digitsOf n = (if n < 10 then [digitChar n] else digitsOf (n div 10) @ [digitChar (n mod 10)])"

declare digitsOf.simps [simp del]

subsection \<open>\<^verbatim>\<open>String(v)\<close> and \<^verbatim>\<open>v.toString()\<close>\<close>

text \<open>
  Number-to-string conversion of an integer: plain decimal digits below \<open>10^21\<close>, and
  exponent notation (\<^verbatim>\<open>1e+21\<close>, \<^verbatim>\<open>1.5e+22\<close>) from there on.  The exponent form is built
  from the digits of the exact integer, which is what JavaScript prints for a double whose
  shortest decimal form is exact, such as \<open>10^21\<close> itself.
\<close>

definition exponentForm :: "nat \<Rightarrow> string" where
  "exponentForm n =
     (let ds = digitsOf n;
          sig = rev (dropWhile (\<lambda>c. c = CHR ''0'') (rev ds));
          e = digitsOf (length ds - 1)
      in (if length sig = 1 then sig else hd sig # CHR ''.'' # tl sig) @ ''e+'' @ e)"

definition numberToString :: "int \<Rightarrow> string" where
  "numberToString n =
     (let m = nat \<bar>n\<bar>;
          body = (if m < 10 ^ 21 then digitsOf m else exponentForm m)
      in if n < 0 then CHR ''-'' # body else body)"

fun toString :: "jsval \<Rightarrow> string" where
  "toString JUndefined = ''undefined''"
| "toString (JBool b) = (if b then ''true'' else ''false'')"
| "toString (JStr s) = s"
| "toString (JNum n) = numberToString n"

subsection \<open>\<^verbatim>\<open>parseInt\<close>\<close>

text \<open>
  \<^verbatim>\<open>parseInt(string)\<close> with no radix argument: skip leading white space, read an optional
  sign, switch to radix 16 after a \<^verbatim>\<open>0x\<close> prefix, and take the longest prefix of digits.
  \<open>None\<close> is \<^verbatim>\<open>NaN\<close> (no digit at all).
\<close>

definition parseInt :: "string \<Rightarrow> int option" where
  "parseInt inputString =
     (let S = trimStart inputString;
          sign = (if take 1 S = ''-'' then - 1 else (1 :: int));
          S1 = (if take 1 S = ''-'' \<or> take 1 S = ''+'' then drop 1 S else S);
          hex = (take 2 S1 = ''0x'' \<or> take 2 S1 = ''0X'');
          R = (if hex then 16 else 10);
          S2 = (if hex then drop 2 S1 else S1);
          Z = takeWhile (isRadixDigit R) S2
      in if Z = [] then None else Some (sign * radixValue R Z))"

subsection \<open>\<^verbatim>\<open>Number\<close>\<close>

definition isDecimalDigit :: "char \<Rightarrow> bool" where
  "isDecimalDigit c = isRadixDigit 10 c"

text \<open>The optional exponent part that ends a decimal literal; \<open>None\<close> when it is malformed.\<close>

definition exponentPart :: "string \<Rightarrow> int option" where
  "exponentPart s =
     (case s of
        [] \<Rightarrow> Some 0
      | c # r \<Rightarrow>
          if c = CHR ''e'' \<or> c = CHR ''E'' then
            (let sg = (if take 1 r = ''-'' then - 1 else (1 :: int));
                 ds = (if take 1 r = ''-'' \<or> take 1 r = ''+'' then drop 1 r else r)
             in if ds = [] then None
                else if list_all isDecimalDigit ds then Some (sg * radixValue 10 ds)
                else None)
          else None)"

definition scale10 :: "rat \<Rightarrow> int \<Rightarrow> rat" where
  "scale10 x e = (if 0 \<le> e then x * 10 ^ nat e else x / 10 ^ nat (- e))"

definition unsignedDecimal :: "string \<Rightarrow> jsnum" where
  "unsignedDecimal s =
     (if s = ''Infinity'' then PosInf
      else
        (let ip = takeWhile isDecimalDigit s;
             r = dropWhile isDecimalDigit s
         in case r of
              [] \<Rightarrow> (if ip = [] then NaN else Fin (of_int (radixValue 10 ip)))
            | c # r2 \<Rightarrow>
                if c = CHR ''.'' then
                  (let fp = takeWhile isDecimalDigit r2;
                       r3 = dropWhile isDecimalDigit r2
                   in if ip = [] \<and> fp = [] then NaN
                      else (case exponentPart r3 of
                              None \<Rightarrow> NaN
                            | Some e \<Rightarrow>
                                Fin (scale10 (of_int (radixValue 10 ip)
                                       + of_int (radixValue 10 fp) / 10 ^ length fp) e)))
                else if ip = [] then NaN
                else (case exponentPart r of
                        None \<Rightarrow> NaN
                      | Some e \<Rightarrow> Fin (scale10 (of_int (radixValue 10 ip)) e))))"

definition negate :: "jsnum \<Rightarrow> jsnum" where
  "negate x = (case x of Fin q \<Rightarrow> Fin (- q) | NaN \<Rightarrow> NaN | PosInf \<Rightarrow> NegInf | NegInf \<Rightarrow> PosInf)"

definition nonDecimal :: "nat \<Rightarrow> string \<Rightarrow> jsnum" where
  "nonDecimal R ds =
     (if ds = [] then NaN
      else if list_all (isRadixDigit R) ds then Fin (of_int (radixValue R ds))
      else NaN)"

text \<open>\<^verbatim>\<open>Number(string)\<close>: the whole trimmed string must be one numeric literal.\<close>

definition stringToNumber :: "string \<Rightarrow> jsnum" where
  "stringToNumber str =
     (let t = trim str in
      if t = [] then Fin 0
      else if take 2 t = ''0x'' \<or> take 2 t = ''0X'' then nonDecimal 16 (drop 2 t)
      else if take 2 t = ''0o'' \<or> take 2 t = ''0O'' then nonDecimal 8 (drop 2 t)
      else if take 2 t = ''0b'' \<or> take 2 t = ''0B'' then nonDecimal 2 (drop 2 t)
      else if take 1 t = ''-'' then negate (unsignedDecimal (drop 1 t))
      else if take 1 t = ''+'' then unsignedDecimal (drop 1 t)
      else unsignedDecimal t)"

fun Number_js :: "jsval \<Rightarrow> jsnum" where
  "Number_js JUndefined = NaN"
| "Number_js (JBool b) = (if b then Fin 1 else Fin 0)"
| "Number_js (JStr s) = stringToNumber s"
| "Number_js (JNum n) = Fin (of_int n)"

text \<open>\<^verbatim>\<open>x + 1\<close> on a number.\<close>

definition plusOne :: "jsnum \<Rightarrow> jsnum" where
  "plusOne x = (case x of Fin q \<Rightarrow> Fin (q + 1) | NaN \<Rightarrow> NaN | PosInf \<Rightarrow> PosInf | NegInf \<Rightarrow> NegInf)"


section \<open>Configuration, grids and the range store\<close>

definition SHEETS :: "string list" where
  "SHEETS = [''TROOPER_COMPANY'', ''TITAN_COMPANY'', ''META_SQUAD'', ''VANGUARD_COMPANY'']"

datatype column = COL_A | COL_B | COL_C | COL_D | COL_E | COL_F | COL_G | COL_H | COL_I | COL_J

text \<open>The table \<^verbatim>\<open>COL\<close>: the index of a column in a row array.\<close>

fun COL :: "column \<Rightarrow> nat" where
  "COL COL_A = 0"
| "COL COL_B = 1"
| "COL COL_C = 2"
| "COL COL_D = 3"
| "COL COL_E = 4"
| "COL COL_F = 5"
| "COL COL_G = 6"
| "COL COL_H = 7"
| "COL COL_I = 8"
| "COL COL_J = 9"

type_synonym grid = "jsval list list"

text \<open>\<^verbatim>\<open>row[COL.X]\<close>: reading past the end of a short row gives \<^verbatim>\<open>undefined\<close>.\<close>

definition cellAt :: "jsval list \<Rightarrow> column \<Rightarrow> jsval" where
  "cellAt r c = (if COL c < length r then r ! COL c else JUndefined)"

text \<open>\<^verbatim>\<open>values[idx] || []\<close>: a row missing from a short grid reads as the empty row.\<close>

definition rowAt :: "grid \<Rightarrow> nat \<Rightarrow> jsval list" where
  "rowAt vs idx = (if idx < length vs then vs ! idx else [])"

text \<open>
  The store holds, for every sheet name, the rows of the sheet from row 1, each row from
  column A; rows and cells missing at the end are simply absent.  \<open>getValues st s r1 r2 c\<close>
  is the read of the range \<^verbatim>\<open>s!A<r1>:<c><r2>\<close>: the rows \<open>r1..r2\<close> that exist, each cut
  after column \<open>c\<close>.  A handler reads each sheet before it writes to it, and a write to one
  sheet is taken not to change what a later read of another sheet returns, so all reads
  of one invocation see the store it started with.  Failures of the remote calls and the
  text of the reply are outside the model.
\<close>

type_synonym store = "string \<Rightarrow> grid"

definition getValues :: "store \<Rightarrow> string \<Rightarrow> nat \<Rightarrow> nat \<Rightarrow> column \<Rightarrow> grid" where
  "getValues st sheetName r1 r2 c =
     map (take (Suc (COL c))) (take (Suc r2 - r1) (drop (r1 - 1) (st sheetName)))"

text \<open>
  A staged write \<^verbatim>\<open>{ range: `${sheet}!${col}${row}`, values: [[v]] }\<close>: the address of one
  cell and the number written to it.
\<close>

record update =
  u_sheet :: string
  u_col :: column
  u_row :: nat
  u_value :: jsnum

definition ofInt :: "int \<Rightarrow> jsnum" where
  "ofInt n = Fin (of_int n)"

definition mkUpdate :: "string \<Rightarrow> column \<Rightarrow> nat \<Rightarrow> jsnum \<Rightarrow> update" where
  "mkUpdate s c r v = \<lparr>u_sheet = s, u_col = c, u_row = r, u_value = v\<rparr>"

text \<open>
  The text of a summary line's \<^verbatim>\<open>info\<close> field is a template filled with the new values;
  the model keeps the template's kind and the values.
\<close>

datatype info = InfoF jsnum | InfoTotalWeekly int int | InfoDE int int | InfoG int

record entry =
  e_sheet :: string
  e_row :: nat
  e_name :: string
  e_info :: info

definition mkEntry :: "string \<Rightarrow> nat \<Rightarrow> string \<Rightarrow> info \<Rightarrow> entry" where
  "mkEntry s r n i = \<lparr>e_sheet = s, e_row = r, e_name = n, e_info = i\<rparr>"

text \<open>
  \<^verbatim>\<open>batchUpdate(updates)\<close>: one remote call carrying the whole list, and no call at all for
  an empty list.  The remote calls issued so far are the state.
\<close>

definition batchUpdate :: "update list \<Rightarrow> update list list \<Rightarrow> update list list" where
  "batchUpdate updates calls = (if updates = [] then calls else calls @ [updates])"

section \<open>Helper functions of the source\<close>

definition isChecked :: "jsval \<Rightarrow> bool" where
  "isChecked cell = (cell = JBool True \<or> toUpperCase (toString cell) = ''TRUE'')"

text \<open>The counter coercion \<^verbatim>\<open>parseInt(v || 0) || 0\<close>, written inline at every use in the source.\<close>

definition coerceInt :: "jsval \<Rightarrow> int" where
  "coerceInt v =
     (case parseInt (toString (if truthy v then v else JNum 0)) of
        None \<Rightarrow> 0
      | Some n \<Rightarrow> n)"

text \<open>\<^verbatim>\<open>s.split(',')\<close>\<close>

fun splitComma :: "string \<Rightarrow> string list" where
  "splitComma [] = [[]]"
| "splitComma (c # cs) =
     (if c = CHR '','' then [] # splitComma cs
      else (case splitComma cs of [] \<Rightarrow> [[c]] | p # ps \<Rightarrow> (c # p) # ps))"

definition parseWords :: "string \<Rightarrow> string list" where
  "parseWords input = filter (\<lambda>s. 0 < length s) (map trim (splitComma input))"

text \<open>\<^verbatim>\<open>values.findIndex(row => row[COL.B] === word)\<close>; \<open>None\<close> is \<^verbatim>\<open>-1\<close>.\<close>

fun findIndexFrom :: "nat \<Rightarrow> grid \<Rightarrow> string \<Rightarrow> nat option" where
  "findIndexFrom i [] word = None"
| "findIndexFrom i (r # rest) word =
     (if cellAt r COL_B = JStr word then Some i else findIndexFrom (Suc i) rest word)"

definition findIndex :: "grid \<Rightarrow> string \<Rightarrow> nat option" where
  "findIndex vs word = findIndexFrom 0 vs word"

section \<open>The add-style handlers\<close>

record addState =
  a_calls :: "update list list"
  updatesSummary :: "entry list"

text \<open>The body of the loop over \<^verbatim>\<open>words\<close> in \<^verbatim>\<open>handleAdd\<close>.\<close>

definition addIteration ::
  "string \<Rightarrow> grid \<Rightarrow> int \<Rightarrow> string \<Rightarrow> update list \<times> entry list \<Rightarrow> update list \<times> entry list" where
  "addIteration sheetName vs eventsToAdd word acc =
     (case findIndex vs word of
        None \<Rightarrow> acc
      | Some rowIndex \<Rightarrow>
          (let totalCurrent = coerceInt (cellAt (vs ! rowIndex) COL_C);
               weeklyCurrent = coerceInt (cellAt (vs ! rowIndex) COL_D);
               totalNew = totalCurrent + eventsToAdd;
               weeklyNew = weeklyCurrent + eventsToAdd;
               rowNumber = rowIndex + 1
           in (fst acc @ [mkUpdate sheetName COL_C rowNumber (ofInt totalNew),
                          mkUpdate sheetName COL_D rowNumber (ofInt weeklyNew)],
               snd acc @ [mkEntry sheetName rowNumber word (InfoTotalWeekly totalNew weeklyNew)])))"

definition officerIteration ::
  "string \<Rightarrow> grid \<Rightarrow> int \<Rightarrow> string \<Rightarrow> update list \<times> entry list \<Rightarrow> update list \<times> entry list" where
  "officerIteration sheetName vs eventsToAdd word acc =
     (case findIndex vs word of
        None \<Rightarrow> acc
      | Some rowIndex \<Rightarrow>
          (let rowNumber = rowIndex + 7;
               dCurrent = coerceInt (cellAt (vs ! rowIndex) COL_D);
               eCurrent = coerceInt (cellAt (vs ! rowIndex) COL_E);
               dNew = dCurrent + eventsToAdd;
               eNew = eCurrent + eventsToAdd
           in (fst acc @ [mkUpdate sheetName COL_D rowNumber (ofInt dNew),
                          mkUpdate sheetName COL_E rowNumber (ofInt eNew)],
               snd acc @ [mkEntry sheetName rowNumber word (InfoDE dNew eNew)])))"

definition tryoutIteration ::
  "string \<Rightarrow> grid \<Rightarrow> int \<Rightarrow> string \<Rightarrow> update list \<times> entry list \<Rightarrow> update list \<times> entry list" where
  "tryoutIteration sheetName vs tryoutsToAdd word acc =
     (case findIndex vs word of
        None \<Rightarrow> acc
      | Some rowIndex \<Rightarrow>
          (let rowNumber = rowIndex + 7;
               gCurrent = coerceInt (cellAt (vs ! rowIndex) COL_G);
               gNew = gCurrent + tryoutsToAdd
           in (fst acc @ [mkUpdate sheetName COL_G rowNumber (ofInt gNew)],
               snd acc @ [mkEntry sheetName rowNumber word (InfoG gNew)])))"

text \<open>
  The loop \<^verbatim>\<open>for (const word of words)\<close>, over any of the three bodies: \<open>updates\<close> is the
  sheet's list, the summary is shared by all sheets.
\<close>

fun wordsLoop ::
  "(string \<Rightarrow> update list \<times> entry list \<Rightarrow> update list \<times> entry list)
     \<Rightarrow> string list \<Rightarrow> update list \<times> entry list \<Rightarrow> update list \<times> entry list" where
  "wordsLoop body [] acc = acc"
| "wordsLoop body (word # rest) acc = wordsLoop body rest (body word acc)"

text \<open>
  One pass of \<^verbatim>\<open>for (const sheetName of SHEETS)\<close>: read the grid, run the words, and send the
  batch \<^verbatim>\<open>if (updates.length > 0)\<close>.
\<close>

definition addSheet :: "store \<Rightarrow> string list \<Rightarrow> int \<Rightarrow> string \<Rightarrow> addState \<Rightarrow> addState" where
  "addSheet st ws eventsToAdd sheetName \<sigma> =
     (let vs = getValues st sheetName 1 100 COL_D;
          acc = wordsLoop (addIteration sheetName vs eventsToAdd) ws ([], updatesSummary \<sigma>)
      in \<lparr>a_calls = (if 0 < length (fst acc) then batchUpdate (fst acc) (a_calls \<sigma>) else a_calls \<sigma>),
          updatesSummary = snd acc\<rparr>)"

definition officerSheet :: "store \<Rightarrow> string list \<Rightarrow> int \<Rightarrow> string \<Rightarrow> addState \<Rightarrow> addState" where
  "officerSheet st ws eventsToAdd sheetName \<sigma> =
     (let vs = getValues st sheetName 7 13 COL_E;
          acc = wordsLoop (officerIteration sheetName vs eventsToAdd) ws ([], updatesSummary \<sigma>)
      in \<lparr>a_calls = (if 0 < length (fst acc) then batchUpdate (fst acc) (a_calls \<sigma>) else a_calls \<sigma>),
          updatesSummary = snd acc\<rparr>)"

definition tryoutSheet :: "store \<Rightarrow> string list \<Rightarrow> int \<Rightarrow> string \<Rightarrow> addState \<Rightarrow> addState" where
  "tryoutSheet st ws tryoutsToAdd sheetName \<sigma> =
     (let vs = getValues st sheetName 7 10 COL_G;
          acc = wordsLoop (tryoutIteration sheetName vs tryoutsToAdd) ws ([], updatesSummary \<sigma>)
      in \<lparr>a_calls = (if 0 < length (fst acc) then batchUpdate (fst acc) (a_calls \<sigma>) else a_calls \<sigma>),
          updatesSummary = snd acc\<rparr>)"

fun sheetsLoop :: "(string \<Rightarrow> 's \<Rightarrow> 's) \<Rightarrow> string list \<Rightarrow> 's \<Rightarrow> 's" where
  "sheetsLoop body [] \<sigma> = \<sigma>"
| "sheetsLoop body (sheetName # rest) \<sigma> = sheetsLoop body rest (body sheetName \<sigma>)"

definition handleAdd :: "store \<Rightarrow> string \<Rightarrow> int \<Rightarrow> addState" where
  "handleAdd st input eventsToAdd =
     sheetsLoop (addSheet st (parseWords input) eventsToAdd) SHEETS
       \<lparr>a_calls = [], updatesSummary = []\<rparr>"

definition handleOfficerAdd :: "store \<Rightarrow> string \<Rightarrow> int \<Rightarrow> addState" where
  "handleOfficerAdd st input eventsToAdd =
     sheetsLoop (officerSheet st (parseWords input) eventsToAdd) SHEETS
       \<lparr>a_calls = [], updatesSummary = []\<rparr>"

definition handleTryoutAdd :: "store \<Rightarrow> string \<Rightarrow> int \<Rightarrow> addState" where
  "handleTryoutAdd st input tryoutsToAdd =
     sheetsLoop (tryoutSheet st (parseWords input) tryoutsToAdd) SHEETS
       \<lparr>a_calls = [], updatesSummary = []\<rparr>"


section \<open>The quota check of \<^verbatim>\<open>index.js\<close>\<close>

record quotaState =
  q_calls :: "update list list"
  topIncrements :: "entry list"
  bottomIncrements :: "entry list"
  sheetsUpdated :: "string list"

text \<open>\<^verbatim>\<open>(row[COL.B] || '').toString().trim()\<close>\<close>

definition nameCellOf :: "jsval list \<Rightarrow> string" where
  "nameCellOf r =
     trim (toString (if truthy (cellAt r COL_B) then cellAt r COL_B else JStr []))"

text \<open>
  The body of the loop over the top block.  Leaving the accumulators unchanged is the
  \<^verbatim>\<open>continue\<close> of a row with an empty name.
\<close>

definition topIteration ::
  "string \<Rightarrow> nat \<Rightarrow> jsval list \<Rightarrow> update list \<times> entry list \<Rightarrow> update list \<times> entry list" where
  "topIteration sheetName i r acc =
     (let actualRow = 7 + i;
          nameCell = nameCellOf r
      in if nameCell = [] then acc
         else
           (let acc1 =
                  (if 8 \<le> actualRow \<and> actualRow \<le> 13 then
                     (let jChecked = isChecked (cellAt r COL_J);
                          hChecked = isChecked (cellAt r COL_H)
                      in if \<not> jChecked \<and> \<not> hChecked then
                           (let fCurrent = coerceInt (cellAt r COL_F);
                                fNew = fCurrent + 1
                            in (fst acc @ [mkUpdate sheetName COL_F actualRow (ofInt fNew)],
                                snd acc @ [mkEntry sheetName actualRow nameCell (InfoF (ofInt fNew))]))
                         else acc)
                   else acc)
            in (fst acc1 @ [mkUpdate sheetName COL_D actualRow (ofInt 0),
                            mkUpdate sheetName COL_E actualRow (ofInt 0)],
                snd acc1)))"

fun topLoop ::
  "string \<Rightarrow> nat \<Rightarrow> grid \<Rightarrow> update list \<times> entry list \<Rightarrow> update list \<times> entry list" where
  "topLoop sheetName i [] acc = acc"
| "topLoop sheetName i (r # rest) acc =
     topLoop sheetName (Suc i) rest (topIteration sheetName i r acc)"

text \<open>The loop \<^verbatim>\<open>for (let r = 7; r <= 10; r++)\<close> of \<^verbatim>\<open>index.js\<close>: it writes column B.\<close>

definition resetIteration :: "string \<Rightarrow> grid \<Rightarrow> nat \<Rightarrow> update list \<Rightarrow> update list" where
  "resetIteration sheetName topValues r updates =
     (let idx = r - 7;
          rw = rowAt topValues idx;
          nameCell = nameCellOf rw
      in if nameCell = [] then updates
         else updates @ [mkUpdate sheetName COL_B r (ofInt 0)])"

fun resetLoop :: "string \<Rightarrow> grid \<Rightarrow> nat list \<Rightarrow> update list \<Rightarrow> update list" where
  "resetLoop sheetName topValues [] updates = updates"
| "resetLoop sheetName topValues (r # rs) updates =
     resetLoop sheetName topValues rs (resetIteration sheetName topValues r updates)"

definition bottomIteration ::
  "string \<Rightarrow> nat \<Rightarrow> jsval list \<Rightarrow> update list \<times> entry list \<Rightarrow> update list \<times> entry list" where
  "bottomIteration sheetName i r acc =
     (let actualRow = 19 + i;
          nameCell = nameCellOf r
      in if nameCell = [] then acc
         else
           (let iChecked = isChecked (cellAt r COL_I);
                gChecked = isChecked (cellAt r COL_G);
                acc1 =
                  (if \<not> iChecked \<and> \<not> gChecked then
                     (let fCurrent = coerceInt (cellAt r COL_F);
                          fNew = fCurrent + 1
                      in (fst acc @ [mkUpdate sheetName COL_F actualRow (ofInt fNew)],
                          snd acc @ [mkEntry sheetName actualRow nameCell (InfoF (ofInt fNew))]))
                   else acc)
            in (fst acc1 @ [mkUpdate sheetName COL_D actualRow (ofInt 0)], snd acc1)))"

fun bottomLoop ::
  "string \<Rightarrow> nat \<Rightarrow> grid \<Rightarrow> update list \<times> entry list \<Rightarrow> update list \<times> entry list" where
  "bottomLoop sheetName i [] acc = acc"
| "bottomLoop sheetName i (r # rest) acc =
     bottomLoop sheetName (Suc i) rest (bottomIteration sheetName i r acc)"

text \<open>
  Everything one pass of the sheet loop does before it commits: the staged \<open>updates\<close> of
  the sheet and the two summary lists, which continue those of the sheets before.
\<close>

definition quotaSheet ::
  "store \<Rightarrow> string \<Rightarrow> entry list \<Rightarrow> entry list \<Rightarrow> update list \<times> entry list \<times> entry list" where
  "quotaSheet st sheetName tops bots =
     (let topValues = getValues st sheetName 7 13 COL_J;
          acc1 = topLoop sheetName 0 topValues ([], tops);
          updates2 = resetLoop sheetName topValues [7 ..< 11] (fst acc1);
          bottomValues = getValues st sheetName 19 40 COL_I;
          acc3 = bottomLoop sheetName 0 bottomValues (updates2, bots)
      in (fst acc3, snd acc1, snd acc3))"

definition quotaStep :: "store \<Rightarrow> string \<Rightarrow> quotaState \<Rightarrow> quotaState" where
  "quotaStep st sheetName \<sigma> =
     (case quotaSheet st sheetName (topIncrements \<sigma>) (bottomIncrements \<sigma>) of
        (updates, tops, bots) \<Rightarrow>
          if 0 < length updates then
            \<lparr>q_calls = batchUpdate updates (q_calls \<sigma>), topIncrements = tops,
             bottomIncrements = bots, sheetsUpdated = sheetsUpdated \<sigma> @ [sheetName]\<rparr>
          else
            \<lparr>q_calls = q_calls \<sigma>, topIncrements = tops,
             bottomIncrements = bots, sheetsUpdated = sheetsUpdated \<sigma>\<rparr>)"

definition initialQuotaState :: quotaState where
  "initialQuotaState = \<lparr>q_calls = [], topIncrements = [], bottomIncrements = [], sheetsUpdated = []\<rparr>"

definition handleQuotaCheck :: "store \<Rightarrow> quotaState" where
  "handleQuotaCheck st = sheetsLoop (quotaStep st) SHEETS initialQuotaState"

section \<open>The quota check of the second source file\<close>

text \<open>
  The second file (\<^verbatim>\<open>src/unnamed/part_000\<close>) has the same four handlers; only its
  \<^verbatim>\<open>handleQuotaCheck\<close> differs.  It trims the name with \<^verbatim>\<open>(row[COL.B] || '').trim()\<close>, which
  raises a \<^verbatim>\<open>TypeError\<close> when the cell is a truthy value that is not a string; it reads the
  counter with \<^verbatim>\<open>Number(row[COL.F] || 0)\<close>; and its rows-7-to-10 loop writes column G.
  Definitions of this file carry the suffix \<open>2\<close>.
\<close>

datatype error = TypeError

definition usernameOf :: "jsval list \<Rightarrow> error + string" where
  "usernameOf r =
     (case (if truthy (cellAt r COL_B) then cellAt r COL_B else JStr []) of
        JStr s \<Rightarrow> Inr (trim s)
      | _ \<Rightarrow> Inl TypeError)"

text \<open>\<^verbatim>\<open>Number(v || 0)\<close>\<close>

definition numberOrZero :: "jsval \<Rightarrow> jsnum" where
  "numberOrZero v = Number_js (if truthy v then v else JNum 0)"

definition topIteration2 ::
  "string \<Rightarrow> nat \<Rightarrow> jsval list \<Rightarrow> update list \<times> entry list
     \<Rightarrow> error + update list \<times> entry list" where
  "topIteration2 sheetName i r acc =
     (let rowNumber = 7 + i in
      case usernameOf r of
        Inl e \<Rightarrow> Inl e
      | Inr username \<Rightarrow>
          if username = [] then Inr acc
          else
            (let acc1 =
                   (if 8 \<le> rowNumber \<and> rowNumber \<le> 13 then
                      (let quotaPassed = isChecked (cellAt r COL_J);
                           exempt = isChecked (cellAt r COL_H)
                       in if \<not> quotaPassed \<and> \<not> exempt then
                            (let fCurrent = numberOrZero (cellAt r COL_F);
                                 fNew = plusOne fCurrent
                             in (fst acc @ [mkUpdate sheetName COL_F rowNumber fNew],
                                 snd acc @ [mkEntry sheetName rowNumber username (InfoF fNew)]))
                          else acc)
                    else acc)
             in Inr (fst acc1 @ [mkUpdate sheetName COL_D rowNumber (ofInt 0),
                                 mkUpdate sheetName COL_E rowNumber (ofInt 0)],
                     snd acc1)))"

fun topLoop2 ::
  "string \<Rightarrow> nat \<Rightarrow> grid \<Rightarrow> update list \<times> entry list \<Rightarrow> error + update list \<times> entry list" where
  "topLoop2 sheetName i [] acc = Inr acc"
| "topLoop2 sheetName i (r # rest) acc =
     (case topIteration2 sheetName i r acc of
        Inl e \<Rightarrow> Inl e
      | Inr acc' \<Rightarrow> topLoop2 sheetName (Suc i) rest acc')"

definition resetIteration2 ::
  "string \<Rightarrow> grid \<Rightarrow> nat \<Rightarrow> update list \<Rightarrow> error + update list" where
  "resetIteration2 sheetName topValues r updates =
     (let rw = rowAt topValues (r - 7) in
      case usernameOf rw of
        Inl e \<Rightarrow> Inl e
      | Inr username \<Rightarrow>
          if username = [] then Inr updates
          else Inr (updates @ [mkUpdate sheetName COL_G r (ofInt 0)]))"

fun resetLoop2 :: "string \<Rightarrow> grid \<Rightarrow> nat list \<Rightarrow> update list \<Rightarrow> error + update list" where
  "resetLoop2 sheetName topValues [] updates = Inr updates"
| "resetLoop2 sheetName topValues (r # rs) updates =
     (case resetIteration2 sheetName topValues r updates of
        Inl e \<Rightarrow> Inl e
      | Inr updates' \<Rightarrow> resetLoop2 sheetName topValues rs updates')"

definition bottomIteration2 ::
  "string \<Rightarrow> nat \<Rightarrow> jsval list \<Rightarrow> update list \<times> entry list
     \<Rightarrow> error + update list \<times> entry list" where
  "bottomIteration2 sheetName i r acc =
     (let rowNumber = 19 + i in
      case usernameOf r of
        Inl e \<Rightarrow> Inl e
      | Inr username \<Rightarrow>
          if username = [] then Inr acc
          else
            (let quotaPassed = isChecked (cellAt r COL_I);
                 exempt = isChecked (cellAt r COL_G);
                 acc1 =
                   (if \<not> quotaPassed \<and> \<not> exempt then
                      (let fCurrent = numberOrZero (cellAt r COL_F);
                           fNew = plusOne fCurrent
                       in (fst acc @ [mkUpdate sheetName COL_F rowNumber fNew],
                           snd acc @ [mkEntry sheetName rowNumber username (InfoF fNew)]))
                    else acc)
             in Inr (fst acc1 @ [mkUpdate sheetName COL_D rowNumber (ofInt 0)], snd acc1)))"

fun bottomLoop2 ::
  "string \<Rightarrow> nat \<Rightarrow> grid \<Rightarrow> update list \<times> entry list \<Rightarrow> error + update list \<times> entry list" where
  "bottomLoop2 sheetName i [] acc = Inr acc"
| "bottomLoop2 sheetName i (r # rest) acc =
     (case bottomIteration2 sheetName i r acc of
        Inl e \<Rightarrow> Inl e
      | Inr acc' \<Rightarrow> bottomLoop2 sheetName (Suc i) rest acc')"

definition quotaSheet2 ::
  "store \<Rightarrow> string \<Rightarrow> entry list \<Rightarrow> entry list
     \<Rightarrow> error + update list \<times> entry list \<times> entry list" where
  "quotaSheet2 st sheetName tops bots =
     (let topValues = getValues st sheetName 7 13 COL_J in
      case topLoop2 sheetName 0 topValues ([], tops) of
        Inl e \<Rightarrow> Inl e
      | Inr acc1 \<Rightarrow>
          (case resetLoop2 sheetName topValues [7 ..< 11] (fst acc1) of
             Inl e \<Rightarrow> Inl e
           | Inr updates2 \<Rightarrow>
               (let bottomValues = getValues st sheetName 19 40 COL_I in
                case bottomLoop2 sheetName 0 bottomValues (updates2, bots) of
                  Inl e \<Rightarrow> Inl e
                | Inr acc3 \<Rightarrow> Inr (fst acc3, snd acc1, snd acc3))))"

text \<open>
  The sheet loop stops at the first exception: the batches of the sheets before it have
  been sent, the one of the failing sheet has not.  The result is the state reached and
  the exception, if any.
\<close>

fun quotaLoop2 :: "store \<Rightarrow> string list \<Rightarrow> quotaState \<Rightarrow> quotaState \<times> error option" where
  "quotaLoop2 st [] \<sigma> = (\<sigma>, None)"
| "quotaLoop2 st (sheetName # rest) \<sigma> =
     (case quotaSheet2 st sheetName (topIncrements \<sigma>) (bottomIncrements \<sigma>) of
        Inl e \<Rightarrow> (\<sigma>, Some e)
      | Inr (updates, tops, bots) \<Rightarrow>
          quotaLoop2 st rest
            (if 0 < length updates then
               \<lparr>q_calls = batchUpdate updates (q_calls \<sigma>), topIncrements = tops,
                bottomIncrements = bots, sheetsUpdated = sheetsUpdated \<sigma> @ [sheetName]\<rparr>
             else
               \<lparr>q_calls = q_calls \<sigma>, topIncrements = tops,
                bottomIncrements = bots, sheetsUpdated = sheetsUpdated \<sigma>\<rparr>))"

definition handleQuotaCheck2 :: "store \<Rightarrow> quotaState \<times> error option" where
  "handleQuotaCheck2 st = quotaLoop2 st SHEETS initialQuotaState"

section \<open>The effect of the remote calls on the store\<close>

text \<open>
  A batch is applied write by write, in order, a later write to a cell replacing an
  earlier one.  The effect of a handler on the store is recorded as the overlay of the
  values written: the value last written to each cell address.
\<close>

type_synonym overlay = "string \<times> column \<times> nat \<Rightarrow> jsnum option"

definition applyUpdate :: "update \<Rightarrow> overlay \<Rightarrow> overlay" where
  "applyUpdate u w = w((u_sheet u, u_col u, u_row u) \<mapsto> u_value u)"

definition applyBatch :: "update list \<Rightarrow> overlay \<Rightarrow> overlay" where
  "applyBatch us w = fold applyUpdate us w"

definition applyCalls :: "update list list \<Rightarrow> overlay" where
  "applyCalls calls = fold applyBatch calls Map.empty"

section \<open>Notions used to state the properties\<close>

definition liveRow :: "store \<Rightarrow> string \<Rightarrow> nat \<Rightarrow> bool" where
  "liveRow st s r =
     ((7 \<le> r \<and> r \<le> 13 \<or> 19 \<le> r \<and> r \<le> 40) \<and> nameCellOf (rowAt (st s) (r - 1)) \<noteq> [])"

text \<open>The invariant of the sheet loop: whatever has been sent or recorded belongs to a live row.\<close>

definition liveUpdate :: "store \<Rightarrow> update \<Rightarrow> bool" where
  "liveUpdate st u = (u_sheet u \<in> set SHEETS \<and> liveRow st (u_sheet u) (u_row u))"

definition liveEntry :: "store \<Rightarrow> entry \<Rightarrow> bool" where
  "liveEntry st e = (e_sheet e \<in> set SHEETS \<and> liveRow st (e_sheet e) (e_row e))"

definition liveState :: "store \<Rightarrow> quotaState \<Rightarrow> bool" where
  "liveState st \<sigma> =
     (list_all (list_all (liveUpdate st)) (q_calls \<sigma>)
      \<and> list_all (liveEntry st) (topIncrements \<sigma>)
      \<and> list_all (liveEntry st) (bottomIncrements \<sigma>))"

text \<open>The writes a handler stages for one sheet, and the remote calls that carry a write to a sheet.\<close>

definition stagedUpdates :: "store \<Rightarrow> string \<Rightarrow> update list" where
  "stagedUpdates st s = fst (quotaSheet st s [] [])"

definition addStaged :: "store \<Rightarrow> string list \<Rightarrow> int \<Rightarrow> string \<Rightarrow> update list" where
  "addStaged st ws n s = fst (wordsLoop (addIteration s (getValues st s 1 100 COL_D) n) ws ([], []))"

definition officerStaged :: "store \<Rightarrow> string list \<Rightarrow> int \<Rightarrow> string \<Rightarrow> update list" where
  "officerStaged st ws n s = fst (wordsLoop (officerIteration s (getValues st s 7 13 COL_E) n) ws ([], []))"

definition tryoutStaged :: "store \<Rightarrow> string list \<Rightarrow> int \<Rightarrow> string \<Rightarrow> update list" where
  "tryoutStaged st ws n s = fst (wordsLoop (tryoutIteration s (getValues st s 7 10 COL_G) n) ws ([], []))"

definition callsFor :: "string \<Rightarrow> update list list \<Rightarrow> update list list" where
  "callsFor s calls = filter (list_ex (\<lambda>u. u_sheet u = s)) calls"

text \<open>The cell a write addresses; the key of the overlay.\<close>

definition address :: "update \<Rightarrow> string \<times> column \<times> nat" where
  "address u = (u_sheet u, u_col u, u_row u)"

text \<open>What one target word contributes to the staged writes of a sheet.\<close>

definition addWrites :: "string \<Rightarrow> grid \<Rightarrow> int \<Rightarrow> string \<Rightarrow> update list" where
  "addWrites s vs n w = fst (addIteration s vs n w ([], []))"

text \<open>What one row of the top or the bottom block contributes to the writes \<^verbatim>\<open>index.js\<close> stages.\<close>

definition topWrites :: "string \<Rightarrow> nat \<Rightarrow> jsval list \<Rightarrow> update list" where
  "topWrites s i r = fst (topIteration s i r ([], []))"

definition bottomWrites :: "string \<Rightarrow> nat \<Rightarrow> jsval list \<Rightarrow> update list" where
  "bottomWrites s i r = fst (bottomIteration s i r ([], []))"


text \<open>The rows of 7 to 10 that carry a name, in the order the reset loop visits them.\<close>

definition liveNames :: "grid \<Rightarrow> nat list \<Rightarrow> nat list" where
  "liveNames tv rs = filter (\<lambda>r. nameCellOf (rowAt tv (r - 7)) \<noteq> []) rs"

text \<open>
  Comparing the two source files: \<open>retarget\<close> turns a write to column B into the write to
  column G, and a store agrees when no scanned identifier cell makes \<^verbatim>\<open>trim\<close> fail and
  \<^verbatim>\<open>Number\<close> and \<^verbatim>\<open>parseInt\<close> read the same value from every counter that gets incremented.
\<close>

definition retarget :: "update \<Rightarrow> update" where
  "retarget u = (if u_col u = COL_B then u\<lparr>u_col := COL_G\<rparr> else u)"

definition retargetState :: "quotaState \<Rightarrow> quotaState" where
  "retargetState \<sigma> = \<sigma>\<lparr>q_calls := map (map retarget) (q_calls \<sigma>)\<rparr>"

definition isStringOrFalsy :: "jsval \<Rightarrow> bool" where
  "isStringOrFalsy v = (case v of JStr s \<Rightarrow> True | _ \<Rightarrow> \<not> truthy v)"

definition fAgrees :: "jsval \<Rightarrow> bool" where
  "fAgrees f = (numberOrZero f = ofInt (coerceInt f))"

definition topRowAgrees :: "nat \<Rightarrow> jsval list \<Rightarrow> bool" where
  "topRowAgrees actualRow r =
     (isStringOrFalsy (cellAt r COL_B)
      \<and> (if nameCellOf r \<noteq> [] \<and> 8 \<le> actualRow \<and> actualRow \<le> 13
             \<and> \<not> isChecked (cellAt r COL_J) \<and> \<not> isChecked (cellAt r COL_H)
          then fAgrees (cellAt r COL_F) else True))"

definition bottomRowAgrees :: "jsval list \<Rightarrow> bool" where
  "bottomRowAgrees r =
     (isStringOrFalsy (cellAt r COL_B)
      \<and> (if nameCellOf r \<noteq> [] \<and> \<not> isChecked (cellAt r COL_I) \<and> \<not> isChecked (cellAt r COL_G)
          then fAgrees (cellAt r COL_F) else True))"

definition sheetAgrees :: "store \<Rightarrow> string \<Rightarrow> bool" where
  "sheetAgrees st s =
     (list_all (\<lambda>(i, r). topRowAgrees (7 + i) r) (enumerate 0 (getValues st s 7 13 COL_J))
      \<and> list_all bottomRowAgrees (getValues st s 19 40 COL_I))"

definition storeAgrees :: "store \<Rightarrow> bool" where
  "storeAgrees st = list_all (sheetAgrees st) SHEETS"









section \<open>Example stores\<close>

text \<open>
  Small stores on which the handlers are run.  Only the named sheet has rows; a row is
  the list of its cells from column A, and an empty list is an empty row.
\<close>

text \<open>Row 7 of the first sheet carries the identifier Alice and nothing else.\<close>

definition storeA :: store where
  "storeA s = (if s = ''TROOPER_COMPANY''
               then [[], [], [], [], [], [], [JStr [], JStr ''Alice'']]
               else [])"

text \<open>Row 10: a named row, both flags unchecked, with the malformed counter \<^verbatim>\<open>abc\<close> in F.\<close>

definition storeB :: store where
  "storeB s = (if s = ''TROOPER_COMPANY''
               then [[], [], [], [], [], [], [], [], [],
                     [JStr [], JStr ''Cmdr'', JStr [], JStr ''4'', JStr ''2'', JStr ''abc'',
                      JStr ''1'', JStr ''FALSE'', JStr [], JStr ''FALSE'']]
               else [])"

text \<open>Row 3: Alice with a total of 10 in C and a weekly count of 2 in D.\<close>

definition storeC :: store where
  "storeC s = (if s = ''TROOPER_COMPANY''
               then [[], [], [JStr [], JStr ''Alice'', JStr ''10'', JStr ''2'']]
               else [])"

text \<open>Row 25 of the third sheet: a named bottom-block row with the counter \<^verbatim>\<open>abc\<close> in F.\<close>

definition storeD :: store where
  "storeD s = (if s = ''META_SQUAD''
               then replicate 24 [] @
                    [[JStr [], JStr ''Trp1'', JStr [], JStr ''4'', JStr [], JStr ''abc'']]
               else [])"

text \<open>Row 7: a named row with both flags unchecked and the counter 3 in F.\<close>

definition storeE :: store where
  "storeE s = (if s = ''TROOPER_COMPANY''
               then [[], [], [], [], [], [],
                     [JStr [], JStr ''Lead'', JStr [], JStr ''4'', JStr ''2'', JStr ''3'',
                      JStr ''1'', JStr ''FALSE'', JStr [], JStr ''FALSE'']]
               else [])"

text \<open>
  Row 7 is named; row 8 is present with counters and unchecked flags, but its identifier is
  a space and a no-break space.
\<close>

definition storeG :: store where
  "storeG s = (if s = ''TROOPER_COMPANY''
               then [[], [], [], [], [], [],
                     [JStr [], JStr ''Alice''],
                     [JStr [], JStr [CHR '' '', CHR 0xA0], JStr [], JStr ''4'', JStr ''2'', JStr ''3'']]
               else [])"

text \<open>Row 7: the identifier cell holds the boolean true.\<close>

definition storeT :: store where
  "storeT s = (if s = ''TROOPER_COMPANY''
               then [[], [], [], [], [], [], [JStr [], JBool True]]
               else [])"

section \<open>Every write and every summary entry belongs to a live row\<close>

lemma cellAt_take: "COL c < n \<Longrightarrow> cellAt (take n r) c = cellAt r c"
  by (auto simp: cellAt_def)

lemma nameCellOf_take: "2 \<le> n \<Longrightarrow> nameCellOf (take n r) = nameCellOf r"
  by (simp add: nameCellOf_def cellAt_take)

lemma length_getValues: "length (getValues st s r1 r2 c) \<le> Suc r2 - r1"
  by (simp add: getValues_def)

lemma nth_getValues:
  "k < length (getValues st s r1 r2 c) \<Longrightarrow> 1 \<le> r1 \<Longrightarrow>
     getValues st s r1 r2 c ! k = take (Suc (COL c)) (rowAt (st s) (r1 + k - 1))"
  by (auto simp: getValues_def rowAt_def)

lemma rowAt_getValues:
  "1 \<le> r1 \<Longrightarrow> k \<le> r2 - r1 \<Longrightarrow> r1 \<le> r2 \<Longrightarrow>
     rowAt (getValues st s r1 r2 c) k = take (Suc (COL c)) (rowAt (st s) (r1 + k - 1))"
  by (auto simp: getValues_def rowAt_def)

lemma topIteration_mem:
  "u \<in> set (fst (topIteration s i r acc)) \<Longrightarrow>
     u \<in> set (fst acc) \<or> (u_sheet u = s \<and> u_row u = 7 + i \<and> nameCellOf r \<noteq> [])"
  by (auto simp: topIteration_def Let_def mkUpdate_def split: if_splits)

lemma topLoop_mem:
  "u \<in> set (fst (topLoop s i rows acc)) \<Longrightarrow>
     u \<in> set (fst acc) \<or>
     (u_sheet u = s \<and> (\<exists>k<length rows. u_row u = 7 + i + k \<and> nameCellOf (rows ! k) \<noteq> []))"
proof (induction rows arbitrary: i acc)
  case Nil
  then show ?case by simp
next
  case (Cons r rows)
  from Cons.prems have "u \<in> set (fst (topLoop s (Suc i) rows (topIteration s i r acc)))" by simp
  from Cons.IH[OF this] show ?case
  proof
    assume "u \<in> set (fst (topIteration s i r acc))"
    from topIteration_mem[OF this] show ?thesis by auto
  next
    assume "u_sheet u = s \<and> (\<exists>k<length rows. u_row u = 7 + Suc i + k \<and> nameCellOf (rows ! k) \<noteq> [])"
    then obtain k where "u_sheet u = s" "k < length rows" "u_row u = 7 + Suc i + k" "nameCellOf (rows ! k) \<noteq> []"
      by blast
    then have "Suc k < length (r # rows) \<and> u_row u = 7 + i + Suc k \<and> nameCellOf ((r # rows) ! Suc k) \<noteq> []"
      by simp
    with \<open>u_sheet u = s\<close> show ?thesis by blast
  qed
qed


lemma resetIteration_mem:
  "u \<in> set (resetIteration s tv r ups) \<Longrightarrow>
     u \<in> set ups \<or> (u_sheet u = s \<and> u_row u = r \<and> nameCellOf (rowAt tv (r - 7)) \<noteq> [])"
  by (auto simp: resetIteration_def Let_def mkUpdate_def split: if_splits)

lemma resetLoop_mem:
  "u \<in> set (resetLoop s tv rs ups) \<Longrightarrow>
     u \<in> set ups \<or> (u_sheet u = s \<and> u_row u \<in> set rs \<and> nameCellOf (rowAt tv (u_row u - 7)) \<noteq> [])"
proof (induction rs arbitrary: ups)
  case Nil
  then show ?case by simp
next
  case (Cons r rs)
  from Cons.prems have "u \<in> set (resetLoop s tv rs (resetIteration s tv r ups))" by simp
  from Cons.IH[OF this] show ?case
    using resetIteration_mem[of u s tv r ups] by auto
qed

lemma bottomIteration_mem:
  "u \<in> set (fst (bottomIteration s i r acc)) \<Longrightarrow>
     u \<in> set (fst acc) \<or> (u_sheet u = s \<and> u_row u = 19 + i \<and> nameCellOf r \<noteq> [])"
  by (auto simp: bottomIteration_def Let_def mkUpdate_def split: if_splits)

lemma bottomLoop_mem:
  "u \<in> set (fst (bottomLoop s i rows acc)) \<Longrightarrow>
     u \<in> set (fst acc) \<or>
     (u_sheet u = s \<and> (\<exists>k<length rows. u_row u = 19 + i + k \<and> nameCellOf (rows ! k) \<noteq> []))"
proof (induction rows arbitrary: i acc)
  case Nil
  then show ?case by simp
next
  case (Cons r rows)
  from Cons.prems have "u \<in> set (fst (bottomLoop s (Suc i) rows (bottomIteration s i r acc)))" by simp
  from Cons.IH[OF this] show ?case
  proof
    assume "u \<in> set (fst (bottomIteration s i r acc))"
    from bottomIteration_mem[OF this] show ?thesis by auto
  next
    assume "u_sheet u = s \<and> (\<exists>k<length rows. u_row u = 19 + Suc i + k \<and> nameCellOf (rows ! k) \<noteq> [])"
    then obtain k where "u_sheet u = s" "k < length rows" "u_row u = 19 + Suc i + k" "nameCellOf (rows ! k) \<noteq> []"
      by blast
    then have "Suc k < length (r # rows) \<and> u_row u = 19 + i + Suc k \<and> nameCellOf ((r # rows) ! Suc k) \<noteq> []"
      by simp
    with \<open>u_sheet u = s\<close> show ?thesis by blast
  qed
qed

text \<open>A live row read through the top or the bottom range.\<close>

lemma live_top:
  assumes "k < length (getValues st s 7 13 COL_J)"
    and "nameCellOf (getValues st s 7 13 COL_J ! k) \<noteq> []"
  shows "liveRow st s (7 + k)"
proof -
  have "k < 7" using assms(1) length_getValues[of st s 7 13 COL_J] by simp
  moreover have "getValues st s 7 13 COL_J ! k = take (Suc (COL COL_J)) (rowAt (st s) (7 + k - 1))"
    using assms(1) by (rule nth_getValues) simp
  ultimately show ?thesis using assms(2) by (simp add: liveRow_def nameCellOf_take)
qed

lemma live_reset:
  assumes "r \<in> set [7 ..< 11]"
    and "nameCellOf (rowAt (getValues st s 7 13 COL_J) (r - 7)) \<noteq> []"
  shows "liveRow st s r"
proof -
  have r: "7 \<le> r" "r \<le> 10" using assms(1) by auto
  then have "rowAt (getValues st s 7 13 COL_J) (r - 7) = take (Suc (COL COL_J)) (rowAt (st s) (7 + (r - 7) - 1))"
    by (intro rowAt_getValues) auto
  then show ?thesis using assms(2) r by (simp add: liveRow_def nameCellOf_take)
qed

lemma live_bottom:
  assumes "k < length (getValues st s 19 40 COL_I)"
    and "nameCellOf (getValues st s 19 40 COL_I ! k) \<noteq> []"
  shows "liveRow st s (19 + k)"
proof -
  have "k < 22" using assms(1) length_getValues[of st s 19 40 COL_I] by simp
  moreover have "getValues st s 19 40 COL_I ! k = take (Suc (COL COL_I)) (rowAt (st s) (19 + k - 1))"
    using assms(1) by (rule nth_getValues) simp
  ultimately show ?thesis using assms(2) by (simp add: liveRow_def nameCellOf_take)
qed

lemma quotaSheet_updates_sound:
  assumes "u \<in> set (fst (quotaSheet st s tops bots))"
  shows "u_sheet u = s \<and> liveRow st s (u_row u)"
proof -
  let ?tv = "getValues st s 7 13 COL_J" and ?bv = "getValues st s 19 40 COL_I"
  let ?u1 = "fst (topLoop s 0 ?tv ([], tops))"
  let ?u2 = "resetLoop s ?tv [7 ..< 11] ?u1"
  from assms have "u \<in> set (fst (bottomLoop s 0 ?bv (?u2, bots)))"
    by (simp add: quotaSheet_def Let_def)
  from bottomLoop_mem[OF this] consider
      (bot) k where "u_sheet u = s" "k < length ?bv" "u_row u = 19 + k" "nameCellOf (?bv ! k) \<noteq> []"
    | (rest) "u \<in> set ?u2" by auto
  then show ?thesis
  proof cases
    case bot
    then show ?thesis using live_bottom[of k st s] by simp
  next
    case rest
    from resetLoop_mem[OF this] consider
        (reset) "u_sheet u = s" "u_row u \<in> set [7 ..< 11]" "nameCellOf (rowAt ?tv (u_row u - 7)) \<noteq> []"
      | (top) "u \<in> set ?u1" by auto
    then show ?thesis
    proof cases
      case reset
      then show ?thesis using live_reset[of "u_row u" st s] by simp
    next
      case top
      from topLoop_mem[OF this] obtain k where
        "u_sheet u = s" "k < length ?tv" "u_row u = 7 + k" "nameCellOf (?tv ! k) \<noteq> []" by auto
      then show ?thesis using live_top[of k st s] by simp
    qed
  qed
qed

lemma topIteration_entry:
  "e \<in> set (snd (topIteration s i r acc)) \<Longrightarrow>
     e \<in> set (snd acc) \<or> (e_sheet e = s \<and> e_row e = 7 + i \<and> nameCellOf r \<noteq> [])"
  by (auto simp: topIteration_def Let_def mkEntry_def split: if_splits)

lemma topLoop_entry:
  "e \<in> set (snd (topLoop s i rows acc)) \<Longrightarrow>
     e \<in> set (snd acc) \<or>
     (e_sheet e = s \<and> (\<exists>k<length rows. e_row e = 7 + i + k \<and> nameCellOf (rows ! k) \<noteq> []))"
proof (induction rows arbitrary: i acc)
  case Nil
  then show ?case by simp
next
  case (Cons r rows)
  from Cons.prems have "e \<in> set (snd (topLoop s (Suc i) rows (topIteration s i r acc)))" by simp
  from Cons.IH[OF this] show ?case
  proof
    assume "e \<in> set (snd (topIteration s i r acc))"
    from topIteration_entry[OF this] show ?thesis by auto
  next
    assume "e_sheet e = s \<and> (\<exists>k<length rows. e_row e = 7 + Suc i + k \<and> nameCellOf (rows ! k) \<noteq> [])"
    then obtain k where "e_sheet e = s" "k < length rows" "e_row e = 7 + Suc i + k" "nameCellOf (rows ! k) \<noteq> []"
      by blast
    then have "Suc k < length (r # rows) \<and> e_row e = 7 + i + Suc k \<and> nameCellOf ((r # rows) ! Suc k) \<noteq> []"
      by simp
    with \<open>e_sheet e = s\<close> show ?thesis by blast
  qed
qed

lemma bottomIteration_entry:
  "e \<in> set (snd (bottomIteration s i r acc)) \<Longrightarrow>
     e \<in> set (snd acc) \<or> (e_sheet e = s \<and> e_row e = 19 + i \<and> nameCellOf r \<noteq> [])"
  by (auto simp: bottomIteration_def Let_def mkEntry_def split: if_splits)

lemma bottomLoop_entry:
  "e \<in> set (snd (bottomLoop s i rows acc)) \<Longrightarrow>
     e \<in> set (snd acc) \<or>
     (e_sheet e = s \<and> (\<exists>k<length rows. e_row e = 19 + i + k \<and> nameCellOf (rows ! k) \<noteq> []))"
proof (induction rows arbitrary: i acc)
  case Nil
  then show ?case by simp
next
  case (Cons r rows)
  from Cons.prems have "e \<in> set (snd (bottomLoop s (Suc i) rows (bottomIteration s i r acc)))" by simp
  from Cons.IH[OF this] show ?case
  proof
    assume "e \<in> set (snd (bottomIteration s i r acc))"
    from bottomIteration_entry[OF this] show ?thesis by auto
  next
    assume "e_sheet e = s \<and> (\<exists>k<length rows. e_row e = 19 + Suc i + k \<and> nameCellOf (rows ! k) \<noteq> [])"
    then obtain k where "e_sheet e = s" "k < length rows" "e_row e = 19 + Suc i + k" "nameCellOf (rows ! k) \<noteq> []"
      by blast
    then have "Suc k < length (r # rows) \<and> e_row e = 19 + i + Suc k \<and> nameCellOf ((r # rows) ! Suc k) \<noteq> []"
      by simp
    with \<open>e_sheet e = s\<close> show ?thesis by blast
  qed
qed

lemma quotaSheet_tops_sound:
  assumes "e \<in> set (fst (snd (quotaSheet st s tops bots)))"
  shows "e \<in> set tops \<or> (e_sheet e = s \<and> liveRow st s (e_row e))"
proof -
  from assms have "e \<in> set (snd (topLoop s 0 (getValues st s 7 13 COL_J) ([], tops)))"
    by (simp add: quotaSheet_def Let_def)
  from topLoop_entry[OF this] show ?thesis using live_top[of _ st s] by auto
qed

lemma quotaSheet_bots_sound:
  assumes "e \<in> set (snd (snd (quotaSheet st s tops bots)))"
  shows "e \<in> set bots \<or> (e_sheet e = s \<and> liveRow st s (e_row e))"
proof -
  from assms obtain us where "e \<in> set (snd (bottomLoop s 0 (getValues st s 19 40 COL_I) (us, bots)))"
    by (simp add: quotaSheet_def Let_def)
  from bottomLoop_entry[OF this] show ?thesis using live_bottom[of _ st s] by auto
qed

lemma quotaStep_live:
  assumes "liveState st \<sigma>" and "s \<in> set SHEETS"
  shows "liveState st (quotaStep st s \<sigma>)"
proof -
  obtain U T B where q: "quotaSheet st s (topIncrements \<sigma>) (bottomIncrements \<sigma>) = (U, T, B)"
    by (cases "quotaSheet st s (topIncrements \<sigma>) (bottomIncrements \<sigma>)") auto
  have U: "list_all (liveUpdate st) U"
  proof -
    have "liveUpdate st u" if "u \<in> set U" for u
    proof -
      from that have "u \<in> set (fst (quotaSheet st s (topIncrements \<sigma>) (bottomIncrements \<sigma>)))"
        by (simp add: q)
      from quotaSheet_updates_sound[OF this] show ?thesis
        using assms(2) by (simp add: liveUpdate_def)
    qed
    then show ?thesis by (simp add: list_all_iff)
  qed
  have T: "list_all (liveEntry st) T"
  proof -
    have "liveEntry st e" if "e \<in> set T" for e
    proof -
      from that have "e \<in> set (fst (snd (quotaSheet st s (topIncrements \<sigma>) (bottomIncrements \<sigma>))))"
        by (simp add: q)
      from quotaSheet_tops_sound[OF this] show ?thesis
        using assms by (auto simp: liveState_def list_all_iff liveEntry_def)
    qed
    then show ?thesis by (simp add: list_all_iff)
  qed
  have B: "list_all (liveEntry st) B"
  proof -
    have "liveEntry st e" if "e \<in> set B" for e
    proof -
      from that have "e \<in> set (snd (snd (quotaSheet st s (topIncrements \<sigma>) (bottomIncrements \<sigma>))))"
        by (simp add: q)
      from quotaSheet_bots_sound[OF this] show ?thesis
        using assms by (auto simp: liveState_def list_all_iff liveEntry_def)
    qed
    then show ?thesis by (simp add: list_all_iff)
  qed
  show ?thesis using U T B assms(1)
    by (simp add: quotaStep_def q liveState_def batchUpdate_def)
qed

lemma sheetsLoop_live:
  "liveState st \<sigma> \<Longrightarrow> set ss \<subseteq> set SHEETS \<Longrightarrow> liveState st (sheetsLoop (quotaStep st) ss \<sigma>)"
  by (induction ss arbitrary: \<sigma>) (auto simp: quotaStep_live)

lemma handleQuotaCheck_live: "liveState st (handleQuotaCheck st)"
  unfolding handleQuotaCheck_def
  by (rule sheetsLoop_live) (simp_all add: liveState_def initialQuotaState_def)

lemma usernameOf_Inr: "usernameOf r = Inr n \<Longrightarrow> n = nameCellOf r"
  by (auto simp: usernameOf_def nameCellOf_def split: jsval.splits if_splits)

lemma topIteration2_mem:
  "topIteration2 s i r acc = Inr acc' \<Longrightarrow> u \<in> set (fst acc') \<Longrightarrow>
     u \<in> set (fst acc) \<or> (u_sheet u = s \<and> u_row u = 7 + i \<and> nameCellOf r \<noteq> [])"
  by (auto simp: topIteration2_def Let_def mkUpdate_def dest!: usernameOf_Inr
           split: sum.splits if_splits)

lemma topIteration2_entry:
  "topIteration2 s i r acc = Inr acc' \<Longrightarrow> e \<in> set (snd acc') \<Longrightarrow>
     e \<in> set (snd acc) \<or> (e_sheet e = s \<and> e_row e = 7 + i \<and> nameCellOf r \<noteq> [])"
  by (auto simp: topIteration2_def Let_def mkEntry_def dest!: usernameOf_Inr
           split: sum.splits if_splits)

lemma topLoop2_mem:
  "topLoop2 s i rows acc = Inr acc' \<Longrightarrow> u \<in> set (fst acc') \<Longrightarrow>
     u \<in> set (fst acc) \<or>
     (u_sheet u = s \<and> (\<exists>k<length rows. u_row u = 7 + i + k \<and> nameCellOf (rows ! k) \<noteq> []))"
proof (induction rows arbitrary: i acc)
  case Nil
  then show ?case by simp
next
  case (Cons r rows)
  from Cons.prems(1) obtain a where a: "topIteration2 s i r acc = Inr a"
    and l: "topLoop2 s (Suc i) rows a = Inr acc'"
    by (auto split: sum.splits)
  from Cons.IH[OF l Cons.prems(2)] show ?case
  proof
    assume "u \<in> set (fst a)"
    from topIteration2_mem[OF a this] show ?thesis by auto
  next
    assume "u_sheet u = s \<and> (\<exists>k<length rows. u_row u = 7 + Suc i + k \<and> nameCellOf (rows ! k) \<noteq> [])"
    then obtain k where "u_sheet u = s" "k < length rows" "u_row u = 7 + Suc i + k" "nameCellOf (rows ! k) \<noteq> []"
      by blast
    then have "Suc k < length (r # rows) \<and> u_row u = 7 + i + Suc k \<and> nameCellOf ((r # rows) ! Suc k) \<noteq> []"
      by simp
    with \<open>u_sheet u = s\<close> show ?thesis by blast
  qed
qed

lemma topLoop2_entry:
  "topLoop2 s i rows acc = Inr acc' \<Longrightarrow> e \<in> set (snd acc') \<Longrightarrow>
     e \<in> set (snd acc) \<or>
     (e_sheet e = s \<and> (\<exists>k<length rows. e_row e = 7 + i + k \<and> nameCellOf (rows ! k) \<noteq> []))"
proof (induction rows arbitrary: i acc)
  case Nil
  then show ?case by simp
next
  case (Cons r rows)
  from Cons.prems(1) obtain a where a: "topIteration2 s i r acc = Inr a"
    and l: "topLoop2 s (Suc i) rows a = Inr acc'"
    by (auto split: sum.splits)
  from Cons.IH[OF l Cons.prems(2)] show ?case
  proof
    assume "e \<in> set (snd a)"
    from topIteration2_entry[OF a this] show ?thesis by auto
  next
    assume "e_sheet e = s \<and> (\<exists>k<length rows. e_row e = 7 + Suc i + k \<and> nameCellOf (rows ! k) \<noteq> [])"
    then obtain k where "e_sheet e = s" "k < length rows" "e_row e = 7 + Suc i + k" "nameCellOf (rows ! k) \<noteq> []"
      by blast
    then have "Suc k < length (r # rows) \<and> e_row e = 7 + i + Suc k \<and> nameCellOf ((r # rows) ! Suc k) \<noteq> []"
      by simp
    with \<open>e_sheet e = s\<close> show ?thesis by blast
  qed
qed

lemma resetIteration2_mem:
  "resetIteration2 s tv r ups = Inr ups' \<Longrightarrow> u \<in> set ups' \<Longrightarrow>
     u \<in> set ups \<or> (u_sheet u = s \<and> u_row u = r \<and> nameCellOf (rowAt tv (r - 7)) \<noteq> [])"
  by (auto simp: resetIteration2_def Let_def mkUpdate_def dest!: usernameOf_Inr
           split: sum.splits if_splits)

lemma resetLoop2_mem:
  "resetLoop2 s tv rs ups = Inr ups' \<Longrightarrow> u \<in> set ups' \<Longrightarrow>
     u \<in> set ups \<or> (u_sheet u = s \<and> u_row u \<in> set rs \<and> nameCellOf (rowAt tv (u_row u - 7)) \<noteq> [])"
proof (induction rs arbitrary: ups)
  case Nil
  then show ?case by simp
next
  case (Cons r rs)
  from Cons.prems(1) obtain a where a: "resetIteration2 s tv r ups = Inr a"
    and l: "resetLoop2 s tv rs a = Inr ups'"
    by (auto split: sum.splits)
  from Cons.IH[OF l Cons.prems(2)] show ?case
    using resetIteration2_mem[OF a, of u] by auto
qed

lemma bottomIteration2_mem:
  "bottomIteration2 s i r acc = Inr acc' \<Longrightarrow> u \<in> set (fst acc') \<Longrightarrow>
     u \<in> set (fst acc) \<or> (u_sheet u = s \<and> u_row u = 19 + i \<and> nameCellOf r \<noteq> [])"
  by (auto simp: bottomIteration2_def Let_def mkUpdate_def dest!: usernameOf_Inr
           split: sum.splits if_splits)

lemma bottomIteration2_entry:
  "bottomIteration2 s i r acc = Inr acc' \<Longrightarrow> e \<in> set (snd acc') \<Longrightarrow>
     e \<in> set (snd acc) \<or> (e_sheet e = s \<and> e_row e = 19 + i \<and> nameCellOf r \<noteq> [])"
  by (auto simp: bottomIteration2_def Let_def mkEntry_def dest!: usernameOf_Inr
           split: sum.splits if_splits)

lemma bottomLoop2_mem:
  "bottomLoop2 s i rows acc = Inr acc' \<Longrightarrow> u \<in> set (fst acc') \<Longrightarrow>
     u \<in> set (fst acc) \<or>
     (u_sheet u = s \<and> (\<exists>k<length rows. u_row u = 19 + i + k \<and> nameCellOf (rows ! k) \<noteq> []))"
proof (induction rows arbitrary: i acc)
  case Nil
  then show ?case by simp
next
  case (Cons r rows)
  from Cons.prems(1) obtain a where a: "bottomIteration2 s i r acc = Inr a"
    and l: "bottomLoop2 s (Suc i) rows a = Inr acc'"
    by (auto split: sum.splits)
  from Cons.IH[OF l Cons.prems(2)] show ?case
  proof
    assume "u \<in> set (fst a)"
    from bottomIteration2_mem[OF a this] show ?thesis by auto
  next
    assume "u_sheet u = s \<and> (\<exists>k<length rows. u_row u = 19 + Suc i + k \<and> nameCellOf (rows ! k) \<noteq> [])"
    then obtain k where "u_sheet u = s" "k < length rows" "u_row u = 19 + Suc i + k" "nameCellOf (rows ! k) \<noteq> []"
      by blast
    then have "Suc k < length (r # rows) \<and> u_row u = 19 + i + Suc k \<and> nameCellOf ((r # rows) ! Suc k) \<noteq> []"
      by simp
    with \<open>u_sheet u = s\<close> show ?thesis by blast
  qed
qed

lemma bottomLoop2_entry:
  "bottomLoop2 s i rows acc = Inr acc' \<Longrightarrow> e \<in> set (snd acc') \<Longrightarrow>
     e \<in> set (snd acc) \<or>
     (e_sheet e = s \<and> (\<exists>k<length rows. e_row e = 19 + i + k \<and> nameCellOf (rows ! k) \<noteq> []))"
proof (induction rows arbitrary: i acc)
  case Nil
  then show ?case by simp
next
  case (Cons r rows)
  from Cons.prems(1) obtain a where a: "bottomIteration2 s i r acc = Inr a"
    and l: "bottomLoop2 s (Suc i) rows a = Inr acc'"
    by (auto split: sum.splits)
  from Cons.IH[OF l Cons.prems(2)] show ?case
  proof
    assume "e \<in> set (snd a)"
    from bottomIteration2_entry[OF a this] show ?thesis by auto
  next
    assume "e_sheet e = s \<and> (\<exists>k<length rows. e_row e = 19 + Suc i + k \<and> nameCellOf (rows ! k) \<noteq> [])"
    then obtain k where "e_sheet e = s" "k < length rows" "e_row e = 19 + Suc i + k" "nameCellOf (rows ! k) \<noteq> []"
      by blast
    then have "Suc k < length (r # rows) \<and> e_row e = 19 + i + Suc k \<and> nameCellOf ((r # rows) ! Suc k) \<noteq> []"
      by simp
    with \<open>e_sheet e = s\<close> show ?thesis by blast
  qed
qed

lemma quotaSheet2_cases:
  assumes "quotaSheet2 st s tops bots = Inr (U, T, B)"
  obtains a1 u2 a3 where
    "topLoop2 s 0 (getValues st s 7 13 COL_J) ([], tops) = Inr a1"
    "resetLoop2 s (getValues st s 7 13 COL_J) [7 ..< 11] (fst a1) = Inr u2"
    "bottomLoop2 s 0 (getValues st s 19 40 COL_I) (u2, bots) = Inr a3"
    "U = fst a3" "T = snd a1" "B = snd a3"
  using assms by (auto simp: quotaSheet2_def Let_def split: sum.splits)

lemma quotaSheet2_updates_sound:
  assumes "quotaSheet2 st s tops bots = Inr (U, T, B)" and "u \<in> set U"
  shows "u_sheet u = s \<and> liveRow st s (u_row u)"
proof -
  let ?tv = "getValues st s 7 13 COL_J" and ?bv = "getValues st s 19 40 COL_I"
  from assms(1) obtain a1 u2 a3 where
    t: "topLoop2 s 0 ?tv ([], tops) = Inr a1" and
    r: "resetLoop2 s ?tv [7 ..< 11] (fst a1) = Inr u2" and
    b: "bottomLoop2 s 0 ?bv (u2, bots) = Inr a3" and U: "U = fst a3"
    by (rule quotaSheet2_cases)
  from assms(2) U have "u \<in> set (fst a3)" by simp
  from bottomLoop2_mem[OF b this] consider
      (bot) k where "u_sheet u = s" "k < length ?bv" "u_row u = 19 + k" "nameCellOf (?bv ! k) \<noteq> []"
    | (rest) "u \<in> set u2" by auto
  then show ?thesis
  proof cases
    case bot
    then show ?thesis using live_bottom[of k st s] by simp
  next
    case rest
    from resetLoop2_mem[OF r this] consider
        (reset) "u_sheet u = s" "u_row u \<in> set [7 ..< 11]" "nameCellOf (rowAt ?tv (u_row u - 7)) \<noteq> []"
      | (top) "u \<in> set (fst a1)" by auto
    then show ?thesis
    proof cases
      case reset
      then show ?thesis using live_reset[of "u_row u" st s] by simp
    next
      case top
      from topLoop2_mem[OF t this] obtain k where
        "u_sheet u = s" "k < length ?tv" "u_row u = 7 + k" "nameCellOf (?tv ! k) \<noteq> []" by auto
      then show ?thesis using live_top[of k st s] by simp
    qed
  qed
qed

lemma quotaSheet2_tops_sound:
  assumes "quotaSheet2 st s tops bots = Inr (U, T, B)" and "e \<in> set T"
  shows "e \<in> set tops \<or> (e_sheet e = s \<and> liveRow st s (e_row e))"
proof -
  from assms(1) obtain a1 where
    t: "topLoop2 s 0 (getValues st s 7 13 COL_J) ([], tops) = Inr a1" and T: "T = snd a1"
    by (rule quotaSheet2_cases)
  from assms(2) T have "e \<in> set (snd a1)" by simp
  from topLoop2_entry[OF t this] show ?thesis using live_top[of _ st s] by auto
qed

lemma quotaSheet2_bots_sound:
  assumes "quotaSheet2 st s tops bots = Inr (U, T, B)" and "e \<in> set B"
  shows "e \<in> set bots \<or> (e_sheet e = s \<and> liveRow st s (e_row e))"
proof -
  from assms(1) obtain u2 a3 where
    b: "bottomLoop2 s 0 (getValues st s 19 40 COL_I) (u2, bots) = Inr a3" and B: "B = snd a3"
    by (rule quotaSheet2_cases)
  from assms(2) B have "e \<in> set (snd a3)" by simp
  from bottomLoop2_entry[OF b this] show ?thesis using live_bottom[of _ st s] by auto
qed

lemma quotaLoop2_live:
  "liveState st \<sigma> \<Longrightarrow> set ss \<subseteq> set SHEETS \<Longrightarrow> liveState st (fst (quotaLoop2 st ss \<sigma>))"
proof (induction ss arbitrary: \<sigma>)
  case Nil
  then show ?case by simp
next
  case (Cons s ss)
  show ?case
  proof (cases "quotaSheet2 st s (topIncrements \<sigma>) (bottomIncrements \<sigma>)")
    case (Inl e)
    then show ?thesis using Cons.prems(1) by simp
  next
    case (Inr res)
    obtain U T B where res: "res = (U, T, B)" by (cases res) auto
    note q = Inr[unfolded res]
    have s: "s \<in> set SHEETS" using Cons.prems(2) by simp
    have U: "list_all (liveUpdate st) U"
      using quotaSheet2_updates_sound[OF q] s by (simp add: list_all_iff liveUpdate_def)
    have T: "list_all (liveEntry st) T"
    proof -
      have "liveEntry st e" if "e \<in> set T" for e
        using quotaSheet2_tops_sound[OF q that] s Cons.prems(1)
        by (auto simp: liveState_def list_all_iff liveEntry_def)
      then show ?thesis by (simp add: list_all_iff)
    qed
    have B: "list_all (liveEntry st) B"
    proof -
      have "liveEntry st e" if "e \<in> set B" for e
        using quotaSheet2_bots_sound[OF q that] s Cons.prems(1)
        by (auto simp: liveState_def list_all_iff liveEntry_def)
      then show ?thesis by (simp add: list_all_iff)
    qed
    let ?\<sigma>' = "(if 0 < length U then
               \<lparr>q_calls = batchUpdate U (q_calls \<sigma>), topIncrements = T,
                bottomIncrements = B, sheetsUpdated = sheetsUpdated \<sigma> @ [s]\<rparr>
             else
               \<lparr>q_calls = q_calls \<sigma>, topIncrements = T,
                bottomIncrements = B, sheetsUpdated = sheetsUpdated \<sigma>\<rparr>)"
    have "liveState st ?\<sigma>'" using U T B Cons.prems(1)
      by (simp add: liveState_def batchUpdate_def)
    from Cons.IH[OF this] Cons.prems(2) have "liveState st (fst (quotaLoop2 st ss ?\<sigma>'))" by simp
    then show ?thesis by (simp add: q res Inr)
  qed
qed

lemma handleQuotaCheck2_live: "liveState st (fst (handleQuotaCheck2 st))"
  unfolding handleQuotaCheck2_def
  by (rule quotaLoop2_live) (simp_all add: liveState_def initialQuotaState_def)

lemma live_calls:
  assumes "liveState st \<sigma>" and "b \<in> set (q_calls \<sigma>)" and "u \<in> set b"
  shows "u_sheet u \<in> set SHEETS" and "7 \<le> u_row u \<and> u_row u \<le> 13 \<or> 19 \<le> u_row u \<and> u_row u \<le> 40"
    and "nameCellOf (rowAt (st (u_sheet u)) (u_row u - 1)) \<noteq> []"
  using assms by (auto simp: liveState_def list_all_iff liveUpdate_def liveRow_def)

lemma live_entries:
  assumes "liveState st \<sigma>" and "e \<in> set (topIncrements \<sigma> @ bottomIncrements \<sigma>)"
  shows "nameCellOf (rowAt (st (e_sheet e)) (e_row e - 1)) \<noteq> []"
  using assms by (auto simp: liveState_def list_all_iff liveEntry_def liveRow_def)


section \<open>The handlers on the example stores\<close>

lemma storeA_calls: "q_calls (handleQuotaCheck storeA) =
   [[mkUpdate ''TROOPER_COMPANY'' COL_D 7 (ofInt 0), mkUpdate ''TROOPER_COMPANY'' COL_E 7 (ofInt 0),
     mkUpdate ''TROOPER_COMPANY'' COL_B 7 (ofInt 0)]]"
  by code_simp

lemma storeA_calls2: "q_calls (fst (handleQuotaCheck2 storeA)) =
   [[mkUpdate ''TROOPER_COMPANY'' COL_D 7 (ofInt 0), mkUpdate ''TROOPER_COMPANY'' COL_E 7 (ofInt 0),
     mkUpdate ''TROOPER_COMPANY'' COL_G 7 (ofInt 0)]]"
  by code_simp

lemma storeB_calls:
  "q_calls (handleQuotaCheck storeB) =
     [[mkUpdate ''TROOPER_COMPANY'' COL_F 10 (ofInt 1), mkUpdate ''TROOPER_COMPANY'' COL_D 10 (ofInt 0),
       mkUpdate ''TROOPER_COMPANY'' COL_E 10 (ofInt 0), mkUpdate ''TROOPER_COMPANY'' COL_B 10 (ofInt 0)]]"
  by code_simp

lemma storeB_calls2:
  "q_calls (fst (handleQuotaCheck2 storeB)) =
     [[mkUpdate ''TROOPER_COMPANY'' COL_F 10 NaN, mkUpdate ''TROOPER_COMPANY'' COL_D 10 (ofInt 0),
       mkUpdate ''TROOPER_COMPANY'' COL_E 10 (ofInt 0), mkUpdate ''TROOPER_COMPANY'' COL_G 10 (ofInt 0)]]"
  by code_simp

lemma second_file_type_error:
  "handleQuotaCheck2 storeT = (initialQuotaState, Some TypeError)"
  "q_calls (handleQuotaCheck storeT) =
     [[mkUpdate ''TROOPER_COMPANY'' COL_D 7 (ofInt 0), mkUpdate ''TROOPER_COMPANY'' COL_E 7 (ofInt 0),
       mkUpdate ''TROOPER_COMPANY'' COL_B 7 (ofInt 0)]]"
  by code_simp+


section \<open>The remote calls of a handler\<close>

lemma topIteration_fst:
  "fst (topIteration s i r (u, e)) = u @ fst (topIteration s i r ([], e'))"
  by (simp add: topIteration_def Let_def)

lemma topLoop_fst:
  "fst (topLoop s i rows (u, e)) = u @ fst (topLoop s i rows ([], e'))"
proof (induction rows arbitrary: i u e e')
  case Nil
  then show ?case by simp
next
  case (Cons r rows)
  obtain u1 e1 where a: "topIteration s i r (u, e) = (u1, e1)" by (cases "topIteration s i r (u, e)") auto
  obtain u2 e2 where b: "topIteration s i r ([], e') = (u2, e2)" by (cases "topIteration s i r ([], e')") auto
  have "u1 = u @ u2" using topIteration_fst[of s i r u e e'] a b by simp
  then show ?case
    using Cons.IH[of "Suc i" "u @ u2" e1 e2] Cons.IH[of "Suc i" u2 e2 e2] by (simp add: a b)
qed

lemma bottomIteration_fst:
  "fst (bottomIteration s i r (u, e)) = u @ fst (bottomIteration s i r ([], e'))"
  by (simp add: bottomIteration_def Let_def)

lemma bottomLoop_fst:
  "fst (bottomLoop s i rows (u, e)) = u @ fst (bottomLoop s i rows ([], e'))"
proof (induction rows arbitrary: i u e e')
  case Nil
  then show ?case by simp
next
  case (Cons r rows)
  obtain u1 e1 where a: "bottomIteration s i r (u, e) = (u1, e1)" by (cases "bottomIteration s i r (u, e)") auto
  obtain u2 e2 where b: "bottomIteration s i r ([], e') = (u2, e2)" by (cases "bottomIteration s i r ([], e')") auto
  have "u1 = u @ u2" using bottomIteration_fst[of s i r u e e'] a b by simp
  then show ?case
    using Cons.IH[of "Suc i" "u @ u2" e1 e2] Cons.IH[of "Suc i" u2 e2 e2] by (simp add: a b)
qed

lemma quotaSheet_fst: "fst (quotaSheet st s tops bots) = stagedUpdates st s"
proof -
  let ?tv = "getValues st s 7 13 COL_J" and ?bv = "getValues st s 19 40 COL_I"
  have t: "fst (topLoop s 0 ?tv ([], tops)) = fst (topLoop s 0 ?tv ([], []))"
    using topLoop_fst[of s 0 ?tv "[]" tops "[]"] by simp
  let ?u2 = "resetLoop s ?tv [7 ..< 11] (fst (topLoop s 0 ?tv ([], [])))"
  have b: "fst (bottomLoop s 0 ?bv (?u2, bots)) = fst (bottomLoop s 0 ?bv (?u2, []))"
    unfolding bottomLoop_fst[of s 0 ?bv ?u2 bots "[]"] bottomLoop_fst[of s 0 ?bv ?u2 "[]" "[]"] ..
  show ?thesis
    unfolding quotaSheet_def stagedUpdates_def Let_def fst_conv t b ..
qed

lemma quotaStep_calls:
  "q_calls (quotaStep st s \<sigma>) =
     q_calls \<sigma> @ filter (\<lambda>b. b \<noteq> []) [stagedUpdates st s]"
proof -
  obtain U T B where q: "quotaSheet st s (topIncrements \<sigma>) (bottomIncrements \<sigma>) = (U, T, B)"
    by (cases "quotaSheet st s (topIncrements \<sigma>) (bottomIncrements \<sigma>)") auto
  then have "U = stagedUpdates st s" using quotaSheet_fst[of st s "topIncrements \<sigma>" "bottomIncrements \<sigma>"] by simp
  then show ?thesis by (simp add: quotaStep_def q batchUpdate_def)
qed

lemma sheetsLoop_quota_calls:
  "q_calls (sheetsLoop (quotaStep st) ss \<sigma>) =
     q_calls \<sigma> @ filter (\<lambda>b. b \<noteq> []) (map (stagedUpdates st) ss)"
  by (induction ss arbitrary: \<sigma>) (simp_all add: quotaStep_calls)

lemma handleQuotaCheck_calls:
  "q_calls (handleQuotaCheck st) = filter (\<lambda>b. b \<noteq> []) (map (stagedUpdates st) SHEETS)"
  by (simp add: handleQuotaCheck_def sheetsLoop_quota_calls initialQuotaState_def)

lemma stagedUpdates_sheet: "u \<in> set (stagedUpdates st s) \<Longrightarrow> u_sheet u = s"
  using quotaSheet_updates_sound[of u st s "[]" "[]"] by (simp add: stagedUpdates_def)

lemma callsFor_staged:
  assumes "distinct ss" and "s \<in> set ss" and "\<And>s' u. u \<in> set (f s') \<Longrightarrow> u_sheet u = s'"
  shows "callsFor s (filter (\<lambda>b. b \<noteq> []) (map f ss)) = (if f s = [] then [] else [f s])"
  using assms(1,2)
proof (induction ss)
  case Nil
  then show ?case by simp
next
  case (Cons a ss)
  have other: "callsFor s (filter (\<lambda>b. b \<noteq> []) (map f ss)) = []" if "s \<notin> set ss"
  proof -
    have "\<not> list_ex (\<lambda>u. u_sheet u = s) (f s')" if "s' \<in> set ss" for s'
      using assms(3)[of _ s'] that \<open>s \<notin> set ss\<close> by (auto simp: list_ex_iff)
    then show ?thesis by (auto simp: callsFor_def filter_empty_conv)
  qed
  show ?case
  proof (cases "a = s")
    case True
    then have "s \<notin> set ss" using Cons.prems(1) by simp
    from other[OF this] have o: "filter (list_ex (\<lambda>u. u_sheet u = s)) (filter (\<lambda>b. b \<noteq> []) (map f ss)) = []"
      by (simp add: callsFor_def)
    have "list_ex (\<lambda>u. u_sheet u = s) (f s)" if "f s \<noteq> []"
    proof -
      from that obtain u where "u \<in> set (f s)" by (cases "f s") auto
      with assms(3)[OF this] show ?thesis by (auto simp: list_ex_iff)
    qed
    then show ?thesis using True o by (simp add: callsFor_def)
  next
    case False
    then have s: "s \<in> set ss" using Cons.prems(2) by simp
    have "\<not> list_ex (\<lambda>u. u_sheet u = s) (f a)"
      using assms(3)[of _ a] False by (auto simp: list_ex_iff)
    then have "callsFor s (filter (\<lambda>b. b \<noteq> []) (map f (a # ss))) = callsFor s (filter (\<lambda>b. b \<noteq> []) (map f ss))"
      by (simp add: callsFor_def)
    then show ?thesis using Cons.IH s Cons.prems(1) by simp
  qed
qed

lemma distinct_SHEETS: "distinct SHEETS"
  by (simp add: SHEETS_def)

text \<open>The add-style handlers.\<close>

lemma wordsLoop_fst:
  assumes "\<And>w u e e'. fst (body w (u, e)) = u @ fst (body w ([], e'))"
  shows "fst (wordsLoop body ws (u, e)) = u @ fst (wordsLoop body ws ([], e'))"
proof (induction ws arbitrary: u e e')
  case Nil
  then show ?case by simp
next
  case (Cons w ws)
  obtain u1 e1 where a: "body w (u, e) = (u1, e1)" by (cases "body w (u, e)") auto
  obtain u2 e2 where b: "body w ([], e') = (u2, e2)" by (cases "body w ([], e')") auto
  have "u1 = u @ u2" using assms[of w u e e'] a b by simp
  then show ?case
    using Cons.IH[of "u @ u2" e1 e2] Cons.IH[of u2 e2 e2] by (simp add: a b)
qed

lemma wordsLoop_mem:
  assumes "\<And>w acc. u \<in> set (fst (body w acc)) \<Longrightarrow> u \<in> set (fst acc) \<or> P"
  shows "u \<in> set (fst (wordsLoop body ws acc)) \<Longrightarrow> u \<in> set (fst acc) \<or> P"
proof (induction ws arbitrary: acc)
  case Nil
  then show ?case by simp
next
  case (Cons w ws)
  from Cons.prems have "u \<in> set (fst (wordsLoop body ws (body w acc)))" by simp
  from Cons.IH[OF this] show ?case using assms[of w acc] by auto
qed

lemma addIteration_fst:
  "fst (addIteration s vs n w (u, e)) = u @ fst (addIteration s vs n w ([], e'))"
  by (simp add: addIteration_def Let_def split: option.splits)

lemma officerIteration_fst:
  "fst (officerIteration s vs n w (u, e)) = u @ fst (officerIteration s vs n w ([], e'))"
  by (simp add: officerIteration_def Let_def split: option.splits)

lemma tryoutIteration_fst:
  "fst (tryoutIteration s vs n w (u, e)) = u @ fst (tryoutIteration s vs n w ([], e'))"
  by (simp add: tryoutIteration_def Let_def split: option.splits)

lemma addIteration_sheet:
  "u \<in> set (fst (addIteration s vs n w acc)) \<Longrightarrow> u \<in> set (fst acc) \<or> u_sheet u = s"
  by (auto simp: addIteration_def Let_def mkUpdate_def split: option.splits)

lemma officerIteration_sheet:
  "u \<in> set (fst (officerIteration s vs n w acc)) \<Longrightarrow> u \<in> set (fst acc) \<or> u_sheet u = s"
  by (auto simp: officerIteration_def Let_def mkUpdate_def split: option.splits)

lemma tryoutIteration_sheet:
  "u \<in> set (fst (tryoutIteration s vs n w acc)) \<Longrightarrow> u \<in> set (fst acc) \<or> u_sheet u = s"
  by (auto simp: tryoutIteration_def Let_def mkUpdate_def split: option.splits)

lemma addStaged_sheet: "u \<in> set (addStaged st ws n s) \<Longrightarrow> u_sheet u = s"
  unfolding addStaged_def using wordsLoop_mem[of u _ "u_sheet u = s" ws "([], [])", OF addIteration_sheet]
  by auto

lemma officerStaged_sheet: "u \<in> set (officerStaged st ws n s) \<Longrightarrow> u_sheet u = s"
  unfolding officerStaged_def using wordsLoop_mem[of u _ "u_sheet u = s" ws "([], [])", OF officerIteration_sheet]
  by auto

lemma tryoutStaged_sheet: "u \<in> set (tryoutStaged st ws n s) \<Longrightarrow> u_sheet u = s"
  unfolding tryoutStaged_def using wordsLoop_mem[of u _ "u_sheet u = s" ws "([], [])", OF tryoutIteration_sheet]
  by auto

lemma addSheet_calls:
  "a_calls (addSheet st ws n s \<sigma>) = a_calls \<sigma> @ filter (\<lambda>b. b \<noteq> []) [addStaged st ws n s]"
  using wordsLoop_fst[of "addIteration s (getValues st s 1 100 COL_D) n" ws "[]" "updatesSummary \<sigma>" "[]",
          OF addIteration_fst]
  by (simp add: addSheet_def addStaged_def Let_def batchUpdate_def)

lemma officerSheet_calls:
  "a_calls (officerSheet st ws n s \<sigma>) = a_calls \<sigma> @ filter (\<lambda>b. b \<noteq> []) [officerStaged st ws n s]"
  using wordsLoop_fst[of "officerIteration s (getValues st s 7 13 COL_E) n" ws "[]" "updatesSummary \<sigma>" "[]",
          OF officerIteration_fst]
  by (simp add: officerSheet_def officerStaged_def Let_def batchUpdate_def)

lemma tryoutSheet_calls:
  "a_calls (tryoutSheet st ws n s \<sigma>) = a_calls \<sigma> @ filter (\<lambda>b. b \<noteq> []) [tryoutStaged st ws n s]"
  using wordsLoop_fst[of "tryoutIteration s (getValues st s 7 10 COL_G) n" ws "[]" "updatesSummary \<sigma>" "[]",
          OF tryoutIteration_fst]
  by (simp add: tryoutSheet_def tryoutStaged_def Let_def batchUpdate_def)

lemma sheetsLoop_calls:
  assumes "\<And>s \<sigma>. a_calls (body s \<sigma>) = a_calls \<sigma> @ filter (\<lambda>b. b \<noteq> []) [f s]"
  shows "a_calls (sheetsLoop body ss \<sigma>) = a_calls \<sigma> @ filter (\<lambda>b. b \<noteq> []) (map f ss)"
  by (induction ss arbitrary: \<sigma>) (simp_all add: assms)

lemma handleAdd_calls:
  "a_calls (handleAdd st input n) = filter (\<lambda>b. b \<noteq> []) (map (addStaged st (parseWords input) n) SHEETS)"
  unfolding handleAdd_def
  using sheetsLoop_calls[of "addSheet st (parseWords input) n" "addStaged st (parseWords input) n", OF addSheet_calls]
  by simp

lemma handleOfficerAdd_calls:
  "a_calls (handleOfficerAdd st input n) = filter (\<lambda>b. b \<noteq> []) (map (officerStaged st (parseWords input) n) SHEETS)"
  unfolding handleOfficerAdd_def
  using sheetsLoop_calls[of "officerSheet st (parseWords input) n" "officerStaged st (parseWords input) n", OF officerSheet_calls]
  by simp

lemma handleTryoutAdd_calls:
  "a_calls (handleTryoutAdd st input n) = filter (\<lambda>b. b \<noteq> []) (map (tryoutStaged st (parseWords input) n) SHEETS)"
  unfolding handleTryoutAdd_def
  using sheetsLoop_calls[of "tryoutSheet st (parseWords input) n" "tryoutStaged st (parseWords input) n", OF tryoutSheet_calls]
  by simp


section \<open>Duplicate targets of the add command\<close>

lemma fold_applyUpdate_const:
  assumes "\<And>u. u \<in> set us \<Longrightarrow> address u = k \<Longrightarrow> u_value u = v"
  shows "fold applyUpdate us w k = (if list_ex (\<lambda>u. address u = k) us then Some v else w k)"
  using assms
proof (induction us arbitrary: w)
  case Nil
  then show ?case by simp
next
  case (Cons u us)
  have "fold applyUpdate us (applyUpdate u w) k
          = (if list_ex (\<lambda>u. address u = k) us then Some v else applyUpdate u w k)"
    by (rule Cons.IH) (use Cons.prems in auto)
  moreover have "applyUpdate u w k = (if address u = k then Some v else w k)"
    using Cons.prems[of u] by (auto simp: applyUpdate_def address_def)
  ultimately show ?case by simp
qed

lemma fold_applyBatch_const:
  assumes "\<And>b u. b \<in> set calls \<Longrightarrow> u \<in> set b \<Longrightarrow> address u = k \<Longrightarrow> u_value u = v"
  shows "fold applyBatch calls w k
           = (if list_ex (list_ex (\<lambda>u. address u = k)) calls then Some v else w k)"
  using assms
proof (induction calls arbitrary: w)
  case Nil
  then show ?case by simp
next
  case (Cons b calls)
  have "fold applyBatch calls (applyBatch b w) k
          = (if list_ex (list_ex (\<lambda>u. address u = k)) calls then Some v else applyBatch b w k)"
    by (rule Cons.IH) (use Cons.prems in auto)
  moreover have "applyBatch b w k = (if list_ex (\<lambda>u. address u = k) b then Some v else w k)"
    unfolding applyBatch_def using Cons.prems[of b] by (intro fold_applyUpdate_const) simp_all
  ultimately show ?case by simp
qed

lemma findIndexFrom_Some:
  "findIndexFrom j vs w = Some i \<Longrightarrow> j \<le> i \<and> i - j < length vs \<and> cellAt (vs ! (i - j)) COL_B = JStr w"
proof (induction vs arbitrary: j)
  case Nil
  then show ?case by simp
next
  case (Cons r vs)
  show ?case
  proof (cases "cellAt r COL_B = JStr w")
    case True
    then show ?thesis using Cons.prems by simp
  next
    case False
    then have "findIndexFrom (Suc j) vs w = Some i" using Cons.prems by simp
    from Cons.IH[OF this] have "Suc j \<le> i" "i - Suc j < length vs" "cellAt (vs ! (i - Suc j)) COL_B = JStr w"
      by auto
    moreover from \<open>Suc j \<le> i\<close> have "i - j = Suc (i - Suc j)" by simp
    ultimately show ?thesis by simp
  qed
qed

lemma findIndex_Some:
  "findIndex vs w = Some i \<Longrightarrow> i < length vs \<and> cellAt (vs ! i) COL_B = JStr w"
  using findIndexFrom_Some[of 0 vs w i] by (simp add: findIndex_def)

lemma findIndex_inj:
  "findIndex vs w = Some i \<Longrightarrow> findIndex vs w' = Some i \<Longrightarrow> w' = w"
  using findIndex_Some[of vs w i] findIndex_Some[of vs w' i] by simp

lemma addIteration_addWrites:
  "fst (addIteration s vs n w (u, e)) = u @ addWrites s vs n w"
  unfolding addWrites_def by (rule addIteration_fst)

lemma wordsLoop_addWrites:
  "fst (wordsLoop (addIteration s vs n) ws (u, e)) = u @ concat (map (addWrites s vs n) ws)"
proof (induction ws arbitrary: u e)
  case Nil
  then show ?case by simp
next
  case (Cons w ws)
  obtain u1 e1 where a: "addIteration s vs n w (u, e) = (u1, e1)"
    by (cases "addIteration s vs n w (u, e)") auto
  then have "u1 = u @ addWrites s vs n w" using addIteration_addWrites[of s vs n w u e] by simp
  then show ?case using Cons.IH[of u1 e1] by (simp add: a)
qed

lemma addStaged_concat:
  "addStaged st ws n s = concat (map (addWrites s (getValues st s 1 100 COL_D) n) ws)"
  by (simp add: addStaged_def wordsLoop_addWrites)

lemma addWrites_match:
  "findIndex vs w = Some i \<Longrightarrow>
     addWrites s vs n w =
       [mkUpdate s COL_C (i + 1) (ofInt (coerceInt (cellAt (vs ! i) COL_C) + n)),
        mkUpdate s COL_D (i + 1) (ofInt (coerceInt (cellAt (vs ! i) COL_D) + n))]"
  by (simp add: addWrites_def addIteration_def Let_def)

lemma addWrites_other:
  assumes "findIndex vs w = Some i" and "w' \<noteq> w"
  shows "filter (\<lambda>u. u_row u = i + 1) (addWrites s vs n w') = []"
proof (cases "findIndex vs w'")
  case None
  then show ?thesis by (simp add: addWrites_def addIteration_def)
next
  case (Some j)
  then have "j \<noteq> i" using findIndex_inj[OF assms(1), of w'] assms(2) by auto
  then show ?thesis using Some by (simp add: addWrites_match mkUpdate_def)
qed

lemma filter_row_addWrites:
  assumes "findIndex vs w = Some i"
  shows "filter (\<lambda>u. u_row u = i + 1) (concat (map (addWrites s vs n) ws))
           = concat (replicate (count_list ws w) (addWrites s vs n w))"
proof (induction ws)
  case Nil
  then show ?case by simp
next
  case (Cons w' ws)
  show ?case
  proof (cases "w' = w")
    case True
    have "filter (\<lambda>u. u_row u = i + 1) (addWrites s vs n w) = addWrites s vs n w"
      by (simp add: addWrites_match[OF assms] mkUpdate_def)
    then show ?thesis using True Cons.IH by simp
  next
    case False
    then show ?thesis using addWrites_other[OF assms False] Cons.IH by simp
  qed
qed

lemma addStaged_row:
  assumes "findIndex (getValues st s 1 100 COL_D) w = Some i"
    and "u \<in> set (addStaged st ws n s)" and "u_row u = i + 1"
  shows "u \<in> set (addWrites s (getValues st s 1 100 COL_D) n w)"
proof -
  let ?vs = "getValues st s 1 100 COL_D"
  from assms(2,3) have "u \<in> set (filter (\<lambda>u. u_row u = i + 1) (concat (map (addWrites s ?vs n) ws)))"
    by (simp add: addStaged_concat)
  then have "u \<in> set (concat (replicate (count_list ws w) (addWrites s ?vs n w)))"
    by (simp only: filter_row_addWrites[OF assms(1)])
  then show ?thesis by auto
qed

lemma addStaged_value:
  assumes f: "findIndex (getValues st s 1 100 COL_D) w = Some i"
    and b: "b \<in> set (a_calls (handleAdd st input n))" and u: "u \<in> set b"
    and a: "address u = (s, c, i + 1)"
  shows "u_value u = ofInt (coerceInt (cellAt (getValues st s 1 100 COL_D ! i) c) + n)"
proof -
  define vs where "vs = getValues st s 1 100 COL_D"
  from b obtain s' where b': "b = addStaged st (parseWords input) n s'"
    by (auto simp: handleAdd_calls)
  from u b' have "u_sheet u = s'" by (simp add: addStaged_sheet)
  with a have "s' = s" by (simp add: address_def)
  with u b' have "u \<in> set (addStaged st (parseWords input) n s)" by simp
  moreover from a have "u_row u = i + 1" by (simp add: address_def)
  ultimately have "u \<in> set (addWrites s (getValues st s 1 100 COL_D) n w)"
    by (rule addStaged_row[OF f])
  then have "u \<in> set (addWrites s vs n w)" by (simp only: vs_def)
  moreover have "findIndex vs w = Some i" using f by (simp only: vs_def)
  ultimately consider
      "u = mkUpdate s COL_C (i + 1) (ofInt (coerceInt (cellAt (vs ! i) COL_C) + n))"
    | "u = mkUpdate s COL_D (i + 1) (ofInt (coerceInt (cellAt (vs ! i) COL_D) + n))"
    by (auto simp: addWrites_match)
  then have "u_value u = ofInt (coerceInt (cellAt (vs ! i) c) + n)"
  proof cases
    case 1
    with a have "c = COL_C" by (simp add: address_def mkUpdate_def)
    then show ?thesis by (simp add: 1 mkUpdate_def)
  next
    case 2
    with a have "c = COL_D" by (simp add: address_def mkUpdate_def)
    then show ?thesis by (simp add: 2 mkUpdate_def)
  qed
  then show ?thesis by (simp only: vs_def)
qed

lemma addStaged_sent:
  assumes "s \<in> set SHEETS" and "findIndex (getValues st s 1 100 COL_D) w = Some i"
    and "w \<in> set (parseWords input)"
  shows "addStaged st (parseWords input) n s \<in> set (a_calls (handleAdd st input n))"
    and "set (addWrites s (getValues st s 1 100 COL_D) n w) \<subseteq> set (addStaged st (parseWords input) n s)"
proof -
  define vs where "vs = getValues st s 1 100 COL_D"
  have f: "findIndex vs w = Some i" using assms(2) by (simp only: vs_def)
  have sub: "set (addWrites s vs n w) \<subseteq> set (addStaged st (parseWords input) n s)"
    using assms(3) unfolding addStaged_concat vs_def by auto
  then show "set (addWrites s (getValues st s 1 100 COL_D) n w) \<subseteq> set (addStaged st (parseWords input) n s)"
    by (simp only: vs_def)
  have "addWrites s vs n w \<noteq> []"
    by (simp add: addWrites_match[OF f])
  with sub have "addStaged st (parseWords input) n s \<noteq> []" by auto
  then show "addStaged st (parseWords input) n s \<in> set (a_calls (handleAdd st input n))"
    using assms(1) by (simp add: handleAdd_calls)
qed

lemma overlay_after_add:
  assumes s: "s \<in> set SHEETS" and f: "findIndex (getValues st s 1 100 COL_D) w = Some i"
    and w: "w \<in> set (parseWords input)" and c: "c = COL_C \<or> c = COL_D"
  shows "applyCalls (a_calls (handleAdd st input n)) (s, c, i + 1)
           = Some (ofInt (coerceInt (cellAt (getValues st s 1 100 COL_D ! i) c) + n))"
proof -
  define vs where "vs = getValues st s 1 100 COL_D"
  define v where "v = ofInt (coerceInt (cellAt (vs ! i) c) + n)"
  define calls where "calls = a_calls (handleAdd st input n)"
  have f': "findIndex vs w = Some i" using f by (simp only: vs_def)
  have "mkUpdate s c (i + 1) v \<in> set (addWrites s vs n w)"
    using c by (auto simp: addWrites_match[OF f'] v_def)
  moreover have "set (addWrites s vs n w) \<subseteq> set (addStaged st (parseWords input) n s)"
    using addStaged_sent(2)[OF s f w, of n] by (simp only: vs_def)
  ultimately have m: "mkUpdate s c (i + 1) v \<in> set (addStaged st (parseWords input) n s)" by auto
  have "addStaged st (parseWords input) n s \<in> set calls"
    using addStaged_sent(1)[OF s f w, of n] by (simp only: calls_def)
  with m have ex: "list_ex (list_ex (\<lambda>u. address u = (s, c, i + 1))) calls"
    unfolding list_ex_iff
    by (intro bexI[of _ "addStaged st (parseWords input) n s"] bexI[of _ "mkUpdate s c (i + 1) v"])
       (simp_all add: address_def mkUpdate_def)
  have "fold applyBatch calls Map.empty (s, c, i + 1)
      = (if list_ex (list_ex (\<lambda>u. address u = (s, c, i + 1))) calls then Some v else Map.empty (s, c, i + 1))"
  proof (rule fold_applyBatch_const)
    fix b u assume "b \<in> set calls" "u \<in> set b" "address u = (s, c, i + 1)"
    then show "u_value u = v"
      using addStaged_value[OF f, of b input n u c] by (simp only: calls_def v_def vs_def)
  qed
  with ex have "applyCalls calls (s, c, i + 1) = Some v" by (simp add: applyCalls_def)
  then show ?thesis by (simp only: calls_def v_def vs_def)
qed


section \<open>Printing and parsing integers\<close>

lemma of_char_digitChar: "d < 10 \<Longrightarrow> (of_char (digitChar d) :: nat) = 48 + d"
  by (simp add: digitChar_def)

lemma digitVal_digitChar: "d < 10 \<Longrightarrow> digitVal (digitChar d) = Some d"
  by (simp add: digitVal_def of_char_digitChar Let_def)

lemma isRadixDigit_digitChar: "d < 10 \<Longrightarrow> isRadixDigit 10 (digitChar d)"
  by (simp add: isRadixDigit_def digitVal_digitChar)

lemma digitChar_not_space: "d < 10 \<Longrightarrow> \<not> isWhiteSpace (digitChar d)"
  by (simp add: isWhiteSpace_def of_char_digitChar)

lemma digitChar_neq:
  assumes "d < 10" and "(of_char c :: nat) < 48 \<or> 57 < (of_char c :: nat)"
  shows "digitChar d \<noteq> c"
proof
  assume "digitChar d = c"
  then have "(of_char c :: nat) = 48 + d" using of_char_digitChar[OF assms(1)] by simp
  with assms show False by auto
qed

lemma digitsOf_nonempty: "digitsOf n \<noteq> []"
  by (subst digitsOf.simps) simp

lemma digitsOf_chars: "c \<in> set (digitsOf n) \<Longrightarrow> \<exists>d<10. c = digitChar d"
proof (induction n rule: digitsOf.induct)
  case (1 n)
  show ?case
  proof (cases "n < 10")
    case True
    then show ?thesis using "1.prems" by (subst (asm) digitsOf.simps) auto
  next
    case False
    from "1.prems" False have "c \<in> set (digitsOf (n div 10)) \<or> c = digitChar (n mod 10)"
      by (subst (asm) digitsOf.simps) auto
    then show ?thesis
    proof
      assume "c \<in> set (digitsOf (n div 10))"
      then show ?thesis using 1 False by simp
    next
      assume "c = digitChar (n mod 10)"
      moreover have "n mod 10 < 10" by simp
      ultimately show ?thesis by blast
    qed
  qed
qed

lemma radixValue_snoc:
  "radixValue R (ds @ [c]) = int R * radixValue R ds + (case digitVal c of None \<Rightarrow> 0 | Some d \<Rightarrow> int d)"
  by (simp add: radixValue_def)

lemma radixValue_digitsOf: "radixValue 10 (digitsOf n) = int n"
proof (induction n rule: digitsOf.induct)
  case (1 n)
  show ?case
  proof (cases "n < 10")
    case True
    then show ?thesis
      by (subst digitsOf.simps) (simp add: radixValue_def digitVal_digitChar)
  next
    case False
    have "radixValue 10 (digitsOf (n div 10) @ [digitChar (n mod 10)])
            = 10 * int (n div 10) + int (n mod 10)"
      using 1[OF False] by (simp add: radixValue_snoc digitVal_digitChar)
    also have "\<dots> = int n" by (simp add: zdiv_int zmod_int)
    finally show ?thesis using False by (subst digitsOf.simps) simp
  qed
qed

lemma parseInt_digits:
  assumes ne: "ds \<noteq> []" and all: "\<And>x. x \<in> set ds \<Longrightarrow> \<exists>d<10. x = digitChar d"
  shows "parseInt ds = Some (radixValue 10 ds)" and "parseInt (CHR ''-'' # ds) = Some (- radixValue 10 ds)"
proof -
  from ne obtain c cs where ds: "ds = c # cs" by (cases ds) auto
  from all[of c] ds obtain d where d: "d < 10" "c = digitChar d" by auto
  have c1: "\<not> isWhiteSpace c" "c \<noteq> CHR ''-''" "c \<noteq> CHR ''+''"
    using d digitChar_not_space[of d] digitChar_neq[of d "CHR ''-''"] digitChar_neq[of d "CHR ''+''"]
    by simp_all
  have nox: "x \<noteq> CHR ''x'' \<and> x \<noteq> CHR ''X''" if "x \<in> set ds" for x
  proof -
    from all[OF that] obtain e where "e < 10" "x = digitChar e" by auto
    then show ?thesis using digitChar_neq[of e "CHR ''x''"] digitChar_neq[of e "CHR ''X''"] by simp
  qed
  have nohex: "\<not> (take 2 (c # cs) = ''0x'' \<or> take 2 (c # cs) = ''0X'')"
    using nox[of "hd cs"] by (cases cs) (auto simp: ds)
  have tw: "takeWhile (isRadixDigit 10) (c # cs) = c # cs"
    using all isRadixDigit_digitChar by (auto simp: takeWhile_eq_all_conv ds)
  have t1: "trimStart (c # cs) = c # cs" using c1 by (simp add: trimStart_def)
  have t2: "trimStart (CHR ''-'' # c # cs) = CHR ''-'' # c # cs"
    by (simp add: trimStart_def isWhiteSpace_def)
  have s1: "take 1 (c # cs) \<noteq> ''-''" "take 1 (c # cs) \<noteq> ''+''" using c1 by simp_all
  have s2: "take 1 (CHR ''-'' # c # cs) = ''-''" "drop 1 (CHR ''-'' # c # cs) = c # cs" by simp_all
  show "parseInt ds = Some (radixValue 10 ds)"
    unfolding ds parseInt_def t1 Let_def
    by (simp only: s1 nohex tw if_False simp_thms list.simps mult_1)
  show "parseInt (CHR ''-'' # ds) = Some (- radixValue 10 ds)"
    unfolding ds parseInt_def t2 Let_def
    by (simp only: s2 nohex tw if_True if_False simp_thms list.simps mult_minus1)
qed

lemma parseInt_numberToString:
  assumes "\<bar>n\<bar> < 10 ^ 21"
  shows "parseInt (numberToString n) = Some n"
proof -
  have m: "nat \<bar>n\<bar> < 10 ^ 21" using assms by (simp add: nat_less_iff)
  show ?thesis
  proof (cases "n < 0")
    case True
    then show ?thesis
      using m parseInt_digits(2)[of "digitsOf (nat \<bar>n\<bar>)", OF digitsOf_nonempty digitsOf_chars]
      by (simp add: numberToString_def Let_def radixValue_digitsOf)
  next
    case False
    then show ?thesis
      using m parseInt_digits(1)[of "digitsOf (nat \<bar>n\<bar>)", OF digitsOf_nonempty digitsOf_chars]
      by (simp add: numberToString_def Let_def radixValue_digitsOf)
  qed
qed


lemma numberToString_nonempty: "numberToString n \<noteq> []"
proof -
  have "digitsOf m \<noteq> []" for m by (rule digitsOf_nonempty)
  moreover have "exponentForm m \<noteq> []" for m by (simp add: exponentForm_def Let_def)
  ultimately show ?thesis by (simp add: numberToString_def Let_def)
qed


















section \<open>Where the two quota checks agree\<close>

lemma usernameOf_agrees: "isStringOrFalsy (cellAt r COL_B) \<Longrightarrow> usernameOf r = Inr (nameCellOf r)"
  by (auto simp: isStringOrFalsy_def usernameOf_def nameCellOf_def split: jsval.splits)

lemma retarget_mk [simp]:
  "retarget (mkUpdate s COL_D r v) = mkUpdate s COL_D r v"
  "retarget (mkUpdate s COL_E r v) = mkUpdate s COL_E r v"
  "retarget (mkUpdate s COL_F r v) = mkUpdate s COL_F r v"
  "retarget (mkUpdate s COL_B r v) = mkUpdate s COL_G r v"
  by (simp_all add: retarget_def mkUpdate_def)

lemma topIteration2_agrees:
  assumes "topRowAgrees (7 + i) r"
  shows "topIteration2 s i r (map retarget u, e)
           = Inr (map retarget (fst (topIteration s i r (u, e))), snd (topIteration s i r (u, e)))"
  using assms usernameOf_agrees[of r]
  by (auto simp: topRowAgrees_def topIteration2_def topIteration_def Let_def fAgrees_def plusOne_def
        ofInt_def split: if_splits)

lemma topLoop2_agrees:
  assumes "list_all (\<lambda>(k, r). topRowAgrees (7 + k) r) (enumerate i rows)"
  shows "topLoop2 s i rows (map retarget u, e)
           = Inr (map retarget (fst (topLoop s i rows (u, e))), snd (topLoop s i rows (u, e)))"
  using assms
proof (induction rows arbitrary: i u e)
  case Nil
  then show ?case by simp
next
  case (Cons r rows)
  obtain u1 e1 where a: "topIteration s i r (u, e) = (u1, e1)" by (cases "topIteration s i r (u, e)") auto
  from Cons.prems have r: "topRowAgrees (7 + i) r"
    and rest: "list_all (\<lambda>(k, r). topRowAgrees (7 + k) r) (enumerate (Suc i) rows)" by simp_all
  show ?case
    using topIteration2_agrees[OF r, of s u e] Cons.IH[OF rest, of u1 e1] by (simp add: a)
qed

lemma resetIteration2_agrees:
  assumes "isStringOrFalsy (cellAt (rowAt tv (r - 7)) COL_B)"
  shows "resetIteration2 s tv r (map retarget u) = Inr (map retarget (resetIteration s tv r u))"
  using usernameOf_agrees[OF assms]
  by (simp add: resetIteration2_def resetIteration_def Let_def)

lemma resetLoop2_agrees:
  assumes "\<And>r. r \<in> set rs \<Longrightarrow> isStringOrFalsy (cellAt (rowAt tv (r - 7)) COL_B)"
  shows "resetLoop2 s tv rs (map retarget u) = Inr (map retarget (resetLoop s tv rs u))"
  using assms
proof (induction rs arbitrary: u)
  case Nil
  then show ?case by simp
next
  case (Cons r rs)
  have "resetLoop2 s tv rs (map retarget (resetIteration s tv r u))
          = Inr (map retarget (resetLoop s tv rs (resetIteration s tv r u)))"
    by (rule Cons.IH) (simp add: Cons.prems)
  then show ?case using resetIteration2_agrees[of tv r s u] Cons.prems[of r] by simp
qed

lemma bottomIteration2_agrees:
  assumes "bottomRowAgrees r"
  shows "bottomIteration2 s i r (map retarget u, e)
           = Inr (map retarget (fst (bottomIteration s i r (u, e))), snd (bottomIteration s i r (u, e)))"
  using assms usernameOf_agrees[of r]
  by (auto simp: bottomRowAgrees_def bottomIteration2_def bottomIteration_def Let_def fAgrees_def
        plusOne_def ofInt_def split: if_splits)

lemma bottomLoop2_agrees:
  assumes "list_all bottomRowAgrees rows"
  shows "bottomLoop2 s i rows (map retarget u, e)
           = Inr (map retarget (fst (bottomLoop s i rows (u, e))), snd (bottomLoop s i rows (u, e)))"
  using assms
proof (induction rows arbitrary: i u e)
  case Nil
  then show ?case by simp
next
  case (Cons r rows)
  obtain u1 e1 where a: "bottomIteration s i r (u, e) = (u1, e1)"
    by (cases "bottomIteration s i r (u, e)") auto
  from Cons.prems have r: "bottomRowAgrees r" and rest: "list_all bottomRowAgrees rows" by simp_all
  show ?case
    using bottomIteration2_agrees[OF r, of s i u e] Cons.IH[OF rest, of "Suc i" u1 e1] by (simp add: a)
qed

lemma reset_rows_agree:
  assumes "list_all (\<lambda>(i, r). topRowAgrees (7 + i) r) (enumerate 0 tv)"
  shows "isStringOrFalsy (cellAt (rowAt tv k) COL_B)"
proof (cases "k < length tv")
  case True
  then have "(k, tv ! k) \<in> set (enumerate 0 tv)" by (simp add: in_set_enumerate_eq)
  with assms have "topRowAgrees (7 + k) (tv ! k)" by (auto simp: list_all_iff)
  then show ?thesis using True by (simp add: topRowAgrees_def rowAt_def)
next
  case False
  then show ?thesis by (simp add: rowAt_def cellAt_def isStringOrFalsy_def)
qed

lemma quotaSheet2_agrees:
  assumes "sheetAgrees st s"
  shows "quotaSheet2 st s tops bots =
           Inr (map retarget (fst (quotaSheet st s tops bots)), snd (quotaSheet st s tops bots))"
proof -
  let ?tv = "getValues st s 7 13 COL_J" and ?bv = "getValues st s 19 40 COL_I"
  from assms have t: "list_all (\<lambda>(i, r). topRowAgrees (7 + i) r) (enumerate 0 ?tv)"
    and b: "list_all bottomRowAgrees ?bv" by (simp_all add: sheetAgrees_def)
  obtain u1 e1 where a1: "topLoop s 0 ?tv ([], tops) = (u1, e1)" by (cases "topLoop s 0 ?tv ([], tops)") auto
  have 1: "topLoop2 s 0 ?tv ([], tops) = Inr (map retarget u1, e1)"
    using topLoop2_agrees[OF t, of s "[]" tops] by (simp add: a1)
  define u2 where "u2 = resetLoop s ?tv [7 ..< 11] u1"
  have 2: "resetLoop2 s ?tv [7 ..< 11] (map retarget u1) = Inr (map retarget u2)"
    unfolding u2_def by (rule resetLoop2_agrees) (rule reset_rows_agree[OF t])
  obtain u3 e3 where a3: "bottomLoop s 0 ?bv (u2, bots) = (u3, e3)"
    by (cases "bottomLoop s 0 ?bv (u2, bots)") auto
  have 3: "bottomLoop2 s 0 ?bv (map retarget u2, bots) = Inr (map retarget u3, e3)"
    using bottomLoop2_agrees[OF b, of s 0 u2 bots] by (simp add: a3)
  have l: "quotaSheet2 st s tops bots = Inr (map retarget u3, e1, e3)"
    unfolding quotaSheet2_def Let_def by (simp only: 1 2 3 sum.case fst_conv snd_conv)
  have r: "quotaSheet st s tops bots = (u3, e1, e3)"
    unfolding quotaSheet_def Let_def by (simp only: a1 a3[unfolded u2_def] fst_conv snd_conv)
  show ?thesis by (simp only: l r fst_conv snd_conv)
qed

lemma quotaLoop2_agrees:
  assumes "list_all (sheetAgrees st) ss"
  shows "quotaLoop2 st ss (retargetState \<sigma>) = (retargetState (sheetsLoop (quotaStep st) ss \<sigma>), None)"
  using assms
proof (induction ss arbitrary: \<sigma>)
  case Nil
  then show ?case by simp
next
  case (Cons s ss)
  from Cons.prems have s: "sheetAgrees st s" and rest: "list_all (sheetAgrees st) ss" by simp_all
  obtain U T B where q: "quotaSheet st s (topIncrements \<sigma>) (bottomIncrements \<sigma>) = (U, T, B)"
    by (cases "quotaSheet st s (topIncrements \<sigma>) (bottomIncrements \<sigma>)") auto
  have q2: "quotaSheet2 st s (topIncrements (retargetState \<sigma>)) (bottomIncrements (retargetState \<sigma>))
              = Inr (map retarget U, T, B)"
    using quotaSheet2_agrees[OF s, of "topIncrements \<sigma>" "bottomIncrements \<sigma>"]
    by (simp add: q retargetState_def)
  have step: "(if 0 < length (map retarget U) then
               \<lparr>q_calls = batchUpdate (map retarget U) (q_calls (retargetState \<sigma>)), topIncrements = T,
                bottomIncrements = B, sheetsUpdated = sheetsUpdated (retargetState \<sigma>) @ [s]\<rparr>
             else
               \<lparr>q_calls = q_calls (retargetState \<sigma>), topIncrements = T,
                bottomIncrements = B, sheetsUpdated = sheetsUpdated (retargetState \<sigma>)\<rparr>)
           = retargetState (quotaStep st s \<sigma>)"
    by (simp add: quotaStep_def q retargetState_def batchUpdate_def)
  have "quotaLoop2 st (s # ss) (retargetState \<sigma>) = quotaLoop2 st ss (retargetState (quotaStep st s \<sigma>))"
    by (simp only: quotaLoop2.simps q2 sum.case prod.case step)
  then show ?case
    using Cons.IH[OF rest, of "quotaStep st s \<sigma>"] by simp
qed

text \<open>
  On a store that agrees, the second file ends without an exception in the state of
  \<^verbatim>\<open>index.js\<close> with every write to column B turned into the write to column G.
\<close>

lemma second_file_agrees_up_to_reset_target:
  assumes "storeAgrees st"
  shows "handleQuotaCheck2 st = (retargetState (handleQuotaCheck st), None)"
proof -
  have "retargetState initialQuotaState = initialQuotaState"
    by (simp add: retargetState_def initialQuotaState_def)
  then show ?thesis
    using quotaLoop2_agrees[of st SHEETS initialQuotaState] assms
    by (simp add: handleQuotaCheck2_def handleQuotaCheck_def storeAgrees_def)
qed


section \<open>What one pass of each loop stages\<close>

lemma resetLoop_writes:
  "resetLoop s tv rs ups = ups @ map (\<lambda>r. mkUpdate s COL_B r (ofInt 0)) (liveNames tv rs)"
  by (induction rs arbitrary: ups) (simp_all add: liveNames_def resetIteration_def Let_def)

lemma resetLoop2_writes:
  "resetLoop2 s tv rs ups = Inr ups' \<Longrightarrow>
     ups' = ups @ map (\<lambda>r. mkUpdate s COL_G r (ofInt 0)) (liveNames tv rs)"
proof (induction rs arbitrary: ups)
  case Nil
  then show ?case by (simp add: liveNames_def)
next
  case (Cons r rs)
  from Cons.prems obtain a where a: "resetIteration2 s tv r ups = Inr a"
    and l: "resetLoop2 s tv rs a = Inr ups'" by (auto split: sum.splits)
  from a have "a = ups @ map (\<lambda>r. mkUpdate s COL_G r (ofInt 0)) (liveNames tv [r])"
    by (auto simp: resetIteration2_def Let_def liveNames_def dest!: usernameOf_Inr
          split: sum.splits if_splits)
  with Cons.IH[OF l] show ?case by (simp add: liveNames_def)
qed

lemma topIteration_writes:
  "fst (topIteration s i r (u, e)) =
     u @ (if nameCellOf r = [] then []
          else (if 8 \<le> 7 + i \<and> 7 + i \<le> 13
                   \<and> \<not> isChecked (cellAt r COL_J) \<and> \<not> isChecked (cellAt r COL_H)
                then [mkUpdate s COL_F (7 + i) (ofInt (coerceInt (cellAt r COL_F) + 1))] else [])
               @ [mkUpdate s COL_D (7 + i) (ofInt 0), mkUpdate s COL_E (7 + i) (ofInt 0)])"
  by (simp add: topIteration_def Let_def)

lemma topIteration_row7:
  "fst (topIteration s 0 r (u, e)) =
     u @ (if nameCellOf r = [] then []
          else [mkUpdate s COL_D 7 (ofInt 0), mkUpdate s COL_E 7 (ofInt 0)])"
  by (simp add: topIteration_def Let_def)

lemma topIteration2_row7:
  "topIteration2 s 0 r (u, e) = Inr acc \<Longrightarrow>
     fst acc = u @ (if nameCellOf r = [] then []
                    else [mkUpdate s COL_D 7 (ofInt 0), mkUpdate s COL_E 7 (ofInt 0)])"
  by (auto simp: topIteration2_def Let_def dest!: usernameOf_Inr split: sum.splits if_splits)

lemma bottomIteration_writes:
  "fst (bottomIteration s i r (u, e)) =
     u @ (if nameCellOf r = [] then []
          else (if \<not> isChecked (cellAt r COL_I) \<and> \<not> isChecked (cellAt r COL_G)
                then [mkUpdate s COL_F (19 + i) (ofInt (coerceInt (cellAt r COL_F) + 1))] else [])
               @ [mkUpdate s COL_D (19 + i) (ofInt 0)])"
  by (simp add: bottomIteration_def Let_def)

lemma coerceInt_malformed:
  "parseInt (toString v) = None \<Longrightarrow> ofInt (coerceInt v + 1) = Fin 1"
  using parseInt_numberToString[of 0] by (auto simp: coerceInt_def ofInt_def)

text \<open>The writes \<^verbatim>\<open>index.js\<close> stages for a sheet, row by row.\<close>

lemma topWrites_eq:
  "topWrites s i r =
     (if nameCellOf r = [] then []
      else (if 8 \<le> 7 + i \<and> 7 + i \<le> 13
               \<and> \<not> isChecked (cellAt r COL_J) \<and> \<not> isChecked (cellAt r COL_H)
            then [mkUpdate s COL_F (7 + i) (ofInt (coerceInt (cellAt r COL_F) + 1))] else [])
           @ [mkUpdate s COL_D (7 + i) (ofInt 0), mkUpdate s COL_E (7 + i) (ofInt 0)])"
  using topIteration_writes[of s i r "[]" "[]"] by (simp add: topWrites_def)

lemma bottomWrites_eq:
  "bottomWrites s i r =
     (if nameCellOf r = [] then []
      else (if \<not> isChecked (cellAt r COL_I) \<and> \<not> isChecked (cellAt r COL_G)
            then [mkUpdate s COL_F (19 + i) (ofInt (coerceInt (cellAt r COL_F) + 1))] else [])
           @ [mkUpdate s COL_D (19 + i) (ofInt 0)])"
  using bottomIteration_writes[of s i r "[]" "[]"] by (simp add: bottomWrites_def)

lemma topLoop_concat:
  "fst (topLoop s i rows (u, e)) = u @ concat (map (\<lambda>(k, r). topWrites s k r) (enumerate i rows))"
proof (induction rows arbitrary: i u e)
  case Nil
  then show ?case by simp
next
  case (Cons r rows)
  obtain u1 e1 where a: "topIteration s i r (u, e) = (u1, e1)" by (cases "topIteration s i r (u, e)") auto
  then have "u1 = u @ topWrites s i r"
    using topIteration_fst[of s i r u e "[]"] by (simp add: topWrites_def)
  then show ?case using Cons.IH[of "Suc i" u1 e1] by (simp add: a)
qed

lemma bottomLoop_concat:
  "fst (bottomLoop s i rows (u, e)) = u @ concat (map (\<lambda>(k, r). bottomWrites s k r) (enumerate i rows))"
proof (induction rows arbitrary: i u e)
  case Nil
  then show ?case by simp
next
  case (Cons r rows)
  obtain u1 e1 where a: "bottomIteration s i r (u, e) = (u1, e1)"
    by (cases "bottomIteration s i r (u, e)") auto
  then have "u1 = u @ bottomWrites s i r"
    using bottomIteration_fst[of s i r u e "[]"] by (simp add: bottomWrites_def)
  then show ?case using Cons.IH[of "Suc i" u1 e1] by (simp add: a)
qed

lemma stagedUpdates_eq:
  "stagedUpdates st s =
     concat (map (\<lambda>(k, r). topWrites s k r) (enumerate 0 (getValues st s 7 13 COL_J)))
     @ map (\<lambda>r. mkUpdate s COL_B r (ofInt 0)) (liveNames (getValues st s 7 13 COL_J) [7 ..< 11])
     @ concat (map (\<lambda>(k, r). bottomWrites s k r) (enumerate 0 (getValues st s 19 40 COL_I)))"
  unfolding stagedUpdates_def quotaSheet_def Let_def fst_conv
  by (simp only: bottomLoop_concat resetLoop_writes topLoop_concat append_Nil append_assoc)

text \<open>Every value staged by \<^verbatim>\<open>index.js\<close> is an integer.\<close>

lemma integer_mkUpdate: "\<exists>n. u_value (mkUpdate s c r (ofInt m)) = ofInt n"
  by (auto simp: mkUpdate_def)

lemma topIteration_integers:
  assumes "\<forall>u\<in>set (fst acc). \<exists>n. u_value u = ofInt n"
  shows "\<forall>u\<in>set (fst (topIteration s i r acc)). \<exists>n. u_value u = ofInt n"
  using assms by (auto simp: topIteration_def Let_def integer_mkUpdate)

lemma topLoop_integers:
  "\<forall>u\<in>set (fst acc). \<exists>n. u_value u = ofInt n \<Longrightarrow>
     \<forall>u\<in>set (fst (topLoop s i rows acc)). \<exists>n. u_value u = ofInt n"
proof (induction rows arbitrary: i acc)
  case Nil
  then show ?case by simp
next
  case (Cons r rows)
  from Cons.IH[OF topIteration_integers[OF Cons.prems]] show ?case by simp
qed

lemma resetLoop_integers:
  "\<forall>u\<in>set ups. \<exists>n. u_value u = ofInt n \<Longrightarrow>
     \<forall>u\<in>set (resetLoop s tv rs ups). \<exists>n. u_value u = ofInt n"
  by (auto simp: resetLoop_writes integer_mkUpdate)

lemma bottomIteration_integers:
  assumes "\<forall>u\<in>set (fst acc). \<exists>n. u_value u = ofInt n"
  shows "\<forall>u\<in>set (fst (bottomIteration s i r acc)). \<exists>n. u_value u = ofInt n"
  using assms by (auto simp: bottomIteration_def Let_def integer_mkUpdate)

lemma bottomLoop_integers:
  "\<forall>u\<in>set (fst acc). \<exists>n. u_value u = ofInt n \<Longrightarrow>
     \<forall>u\<in>set (fst (bottomLoop s i rows acc)). \<exists>n. u_value u = ofInt n"
proof (induction rows arbitrary: i acc)
  case Nil
  then show ?case by simp
next
  case (Cons r rows)
  from Cons.IH[OF bottomIteration_integers[OF Cons.prems]] show ?case by simp
qed

lemma stagedUpdates_integers:
  "u \<in> set (stagedUpdates st s) \<Longrightarrow> \<exists>n. u_value u = ofInt n"
proof -
  let ?tv = "getValues st s 7 13 COL_J" and ?bv = "getValues st s 19 40 COL_I"
  have 1: "\<forall>u\<in>set (fst (topLoop s 0 ?tv ([], []))). \<exists>n. u_value u = ofInt n"
    by (rule topLoop_integers) simp
  have 2: "\<forall>u\<in>set (resetLoop s ?tv [7 ..< 11] (fst (topLoop s 0 ?tv ([], [])))). \<exists>n. u_value u = ofInt n"
    by (rule resetLoop_integers[OF 1])
  have "\<forall>u\<in>set (fst (bottomLoop s 0 ?bv (resetLoop s ?tv [7 ..< 11] (fst (topLoop s 0 ?tv ([], []))), []))).
          \<exists>n. u_value u = ofInt n"
    by (rule bottomLoop_integers) (use 2 in simp)
  then show "u \<in> set (stagedUpdates st s) \<Longrightarrow> \<exists>n. u_value u = ofInt n"
    unfolding stagedUpdates_def quotaSheet_def Let_def fst_conv by blast
qed

lemma index_js_stages_integers:
  "b \<in> set (q_calls (handleQuotaCheck st)) \<Longrightarrow> u \<in> set b \<Longrightarrow> \<exists>n. u_value u = ofInt n"
  using stagedUpdates_integers by (auto simp: handleQuotaCheck_calls)


section \<open>Claim C1: the reset of rows 7 to 10\<close>

text \<open>
  C1.  The claim: for every row from 7 to 10 with a non-empty identifier, the rows-7-to-10
  loop stages exactly one write, of 0 to column G of that row.  The second source file does
  so (\<open>resetLoop2_writes\<close>).  The loop of \<^verbatim>\<open>index.js\<close> stages one write per such row too, but to
  column B, the identifier itself (\<open>resetLoop_writes\<close>); on \<open>storeA\<close>, whose row 7 is named
  Alice, it stages the write of 0 to B7 and nothing for G7.
\<close>

theorem C1_index_js_resets_column_B:
  "resetLoop ''TROOPER_COMPANY'' (getValues storeA ''TROOPER_COMPANY'' 7 13 COL_J) [7 ..< 11] []
     = [mkUpdate ''TROOPER_COMPANY'' COL_B 7 (ofInt 0)]"
  by code_simp


section \<open>Claim C2: row 7 is reset but never incremented\<close>

text \<open>
  C2.  The claim: row 7 never gets a column-F write, and with a non-empty identifier it gets
  the resets of D, E and G.  Neither file increments row 7, and both reset D and E
  (\<open>topIteration_row7\<close>, \<open>topIteration2_row7\<close>).  The third reset comes from the rows-7-to-10
  loop, which in \<^verbatim>\<open>index.js\<close> writes column B: on \<open>storeE\<close>, whose row 7 is named and has both
  flags unchecked, the batch of \<^verbatim>\<open>index.js\<close> is D7, E7 and B7, with no write to G7.
\<close>

theorem C2_index_js_row_7_gets_D_E_B:
  "q_calls (handleQuotaCheck storeE) =
     [[mkUpdate ''TROOPER_COMPANY'' COL_D 7 (ofInt 0), mkUpdate ''TROOPER_COMPANY'' COL_E 7 (ofInt 0),
       mkUpdate ''TROOPER_COMPANY'' COL_B 7 (ofInt 0)]]"
  by code_simp


section \<open>Claim C3: when the quota counter is incremented\<close>

text \<open>
  C3.  The claim: a named row of 8 to 13 (flags J and H) or of 19 to 40 (flags I and G) gets
  the write of \<open>coerceInt F + 1\<close> to column F, and a summary entry, exactly when neither flag
  is checked.  \<^verbatim>\<open>index.js\<close> does this (\<open>stagedUpdates_eq\<close>, \<open>topWrites_eq\<close>,
  \<open>bottomWrites_eq\<close>).  The second file decides on the same flags but computes
  \<^verbatim>\<open>Number(F || 0) + 1\<close>: on \<open>storeB\<close>, whose row 10 has the counter \<^verbatim>\<open>abc\<close>, it stages and
  records \<^verbatim>\<open>NaN\<close> where the claim's value is 1.
\<close>

theorem C3_second_file_stages_NaN:
  "q_calls (fst (handleQuotaCheck2 storeB)) =
     [[mkUpdate ''TROOPER_COMPANY'' COL_F 10 NaN, mkUpdate ''TROOPER_COMPANY'' COL_D 10 (ofInt 0),
       mkUpdate ''TROOPER_COMPANY'' COL_E 10 (ofInt 0), mkUpdate ''TROOPER_COMPANY'' COL_G 10 (ofInt 0)]]
   \<and> topIncrements (fst (handleQuotaCheck2 storeB)) = [mkEntry ''TROOPER_COMPANY'' 10 ''Cmdr'' (InfoF NaN)]
   \<and> ofInt (coerceInt (JStr ''abc'') + 1) = Fin 1"
  by code_simp


section \<open>Claim C4: a row with an empty identifier is inert\<close>

text \<open>
  C4.  During a quota check, a row of a sheet whose column-B identifier is empty after
  trimming gets no write of any kind, staged or sent, and no summary entry, in both source
  files.  The
  identifier of row \<open>r\<close> of sheet \<open>s\<close> is \<open>nameCellOf (rowAt (st s) (r - 1))\<close>: the top and the
  bottom range return exactly these rows (\<open>nth_getValues\<close>), so the statement covers the
  rows 7 to 13 and 19 to 40 of every sheet.  For the second file the statement is about
  the state reached, whether or not the run ended in an exception.
\<close>

theorem C4_empty_identifier_row_is_inert:
  assumes "nameCellOf (rowAt (st s) (r - 1)) = []"
  shows "(\<forall>u\<in>set (stagedUpdates st s). u_row u \<noteq> r)
       \<and> (\<forall>b\<in>set (q_calls (handleQuotaCheck st)). \<forall>u\<in>set b. \<not> (u_sheet u = s \<and> u_row u = r))
       \<and> (\<forall>e\<in>set (topIncrements (handleQuotaCheck st) @ bottomIncrements (handleQuotaCheck st)).
            \<not> (e_sheet e = s \<and> e_row e = r))
       \<and> (\<forall>b\<in>set (q_calls (fst (handleQuotaCheck2 st))). \<forall>u\<in>set b. \<not> (u_sheet u = s \<and> u_row u = r))
       \<and> (\<forall>e\<in>set (topIncrements (fst (handleQuotaCheck2 st)) @ bottomIncrements (fst (handleQuotaCheck2 st))).
            \<not> (e_sheet e = s \<and> e_row e = r))"
proof -
  have "u_row u \<noteq> r" if "u \<in> set (stagedUpdates st s)" for u
    using quotaSheet_updates_sound[of u st s "[]" "[]"] that assms
    by (auto simp: stagedUpdates_def liveRow_def)
  then show ?thesis
    using assms live_calls(3)[OF handleQuotaCheck_live] live_calls(3)[OF handleQuotaCheck2_live]
      live_entries[OF handleQuotaCheck_live] live_entries[OF handleQuotaCheck2_live]
    by blast
qed

text \<open>
  Row 8 of the first sheet of \<open>storeG\<close> is present, with a counter in F and unchecked flags;
  its identifier, a space and a no-break space, is empty after trimming, and neither file
  increments or resets the row.
\<close>

theorem C4_witness:
  "nameCellOf (rowAt (storeG ''TROOPER_COMPANY'') (8 - 1)) = []
   \<and> cellAt (rowAt (storeG ''TROOPER_COMPANY'') (8 - 1)) COL_F = JStr ''3''
   \<and> mkUpdate ''TROOPER_COMPANY'' COL_F 8 (ofInt 4) \<notin> set (stagedUpdates storeG ''TROOPER_COMPANY'')
   \<and> mkUpdate ''TROOPER_COMPANY'' COL_F 8 (ofInt 4) \<notin> set (concat (q_calls (handleQuotaCheck storeG)))
   \<and> mkUpdate ''TROOPER_COMPANY'' COL_D 8 (ofInt 0) \<notin> set (concat (q_calls (handleQuotaCheck storeG)))
   \<and> mkUpdate ''TROOPER_COMPANY'' COL_F 8 (ofInt 4) \<notin> set (concat (q_calls (fst (handleQuotaCheck2 storeG))))
   \<and> mkUpdate ''TROOPER_COMPANY'' COL_D 8 (ofInt 0) \<notin> set (concat (q_calls (fst (handleQuotaCheck2 storeG))))
   \<and> q_calls (handleQuotaCheck storeG) =
       [[mkUpdate ''TROOPER_COMPANY'' COL_D 7 (ofInt 0), mkUpdate ''TROOPER_COMPANY'' COL_E 7 (ofInt 0),
         mkUpdate ''TROOPER_COMPANY'' COL_B 7 (ofInt 0)]]"
proof -
  have h: "nameCellOf (rowAt (storeG ''TROOPER_COMPANY'') (8 - 1)) = []"
    by code_simp
  have f: "cellAt (rowAt (storeG ''TROOPER_COMPANY'') (8 - 1)) COL_F = JStr ''3''"
    by code_simp
  have e: "q_calls (handleQuotaCheck storeG) =
       [[mkUpdate ''TROOPER_COMPANY'' COL_D 7 (ofInt 0), mkUpdate ''TROOPER_COMPANY'' COL_E 7 (ofInt 0),
         mkUpdate ''TROOPER_COMPANY'' COL_B 7 (ofInt 0)]]"
    by code_simp
  from C4_empty_identifier_row_is_inert[of storeG "''TROOPER_COMPANY''" 8] h
  have "mkUpdate ''TROOPER_COMPANY'' COL_F 8 (ofInt 4) \<notin> set (stagedUpdates storeG ''TROOPER_COMPANY'')"
    and "mkUpdate ''TROOPER_COMPANY'' COL_F 8 (ofInt 4) \<notin> set (concat (q_calls (handleQuotaCheck storeG)))"
    and "mkUpdate ''TROOPER_COMPANY'' COL_D 8 (ofInt 0) \<notin> set (concat (q_calls (handleQuotaCheck storeG)))"
    and "mkUpdate ''TROOPER_COMPANY'' COL_F 8 (ofInt 4) \<notin> set (concat (q_calls (fst (handleQuotaCheck2 storeG))))"
    and "mkUpdate ''TROOPER_COMPANY'' COL_D 8 (ofInt 0) \<notin> set (concat (q_calls (fst (handleQuotaCheck2 storeG))))"
    by (force simp: mkUpdate_def)+
  with h f e show ?thesis by blast
qed

section \<open>Claim C5: a malformed counter\<close>

text \<open>
  C5.  The claim: a non-empty, non-numeric counter of a row that is incremented counts as 0,
  so that the integer 1 is staged, and no non-integer is ever staged.  \<^verbatim>\<open>index.js\<close> does this
  (\<open>coerceInt_malformed\<close>, \<open>index_js_stages_integers\<close>).  The second file reads the counter
  with \<^verbatim>\<open>Number\<close>, without the fallback to 0: on \<open>storeD\<close>, whose row 25 has the counter
  \<^verbatim>\<open>abc\<close>, it stages \<^verbatim>\<open>NaN\<close> for F25 where \<^verbatim>\<open>index.js\<close> stages 1.
\<close>

theorem C5_second_file_no_coercion_to_zero:
  "q_calls (fst (handleQuotaCheck2 storeD)) =
     [[mkUpdate ''META_SQUAD'' COL_F 25 NaN, mkUpdate ''META_SQUAD'' COL_D 25 (ofInt 0)]]
   \<and> q_calls (handleQuotaCheck storeD) =
     [[mkUpdate ''META_SQUAD'' COL_F 25 (ofInt 1), mkUpdate ''META_SQUAD'' COL_D 25 (ofInt 0)]]"
  by code_simp

section \<open>Claim C6: the two quota checks compared\<close>

text \<open>
  C6.  The claim: on every store the two files stage the same writes and record the same
  summary, except that the rows-7-to-10 loop writes column G in one and column B in the
  other.  The second file differs in more: it reads the counter with \<^verbatim>\<open>Number\<close>, without the
  fallback to 0.  On \<open>storeB\<close>, whose row 10 has the counter \<^verbatim>\<open>abc\<close>, \<^verbatim>\<open>index.js\<close> stages 1 for
  F10 and the second file stages \<^verbatim>\<open>NaN\<close>, so the state of the second file is not that of
  \<^verbatim>\<open>index.js\<close> with column B turned into column G.  (Its \<^verbatim>\<open>trim\<close> without \<^verbatim>\<open>toString\<close> makes
  it raise where \<^verbatim>\<open>index.js\<close> does not, \<open>second_file_type_error\<close>; where neither happens the
  two files do agree up to the reset target, \<open>second_file_agrees_up_to_reset_target\<close>.)
\<close>

theorem C6_files_differ_on_malformed_counter:
  "q_calls (handleQuotaCheck storeB) =
     [[mkUpdate ''TROOPER_COMPANY'' COL_F 10 (ofInt 1), mkUpdate ''TROOPER_COMPANY'' COL_D 10 (ofInt 0),
       mkUpdate ''TROOPER_COMPANY'' COL_E 10 (ofInt 0), mkUpdate ''TROOPER_COMPANY'' COL_B 10 (ofInt 0)]]
   \<and> q_calls (fst (handleQuotaCheck2 storeB)) =
     [[mkUpdate ''TROOPER_COMPANY'' COL_F 10 NaN, mkUpdate ''TROOPER_COMPANY'' COL_D 10 (ofInt 0),
       mkUpdate ''TROOPER_COMPANY'' COL_E 10 (ofInt 0), mkUpdate ''TROOPER_COMPANY'' COL_G 10 (ofInt 0)]]
   \<and> handleQuotaCheck2 storeB \<noteq> (retargetState (handleQuotaCheck storeB), None)"
proof -
  have "handleQuotaCheck2 storeB \<noteq> (retargetState (handleQuotaCheck storeB), None)"
  proof
    assume "handleQuotaCheck2 storeB = (retargetState (handleQuotaCheck storeB), None)"
    then have "q_calls (fst (handleQuotaCheck2 storeB))
                 = map (map retarget) (q_calls (handleQuotaCheck storeB))"
      by (simp add: retargetState_def)
    then show False
      by (simp add: storeB_calls storeB_calls2 mkUpdate_def ofInt_def retarget_def)
  qed
  then show ?thesis using storeB_calls storeB_calls2 by blast
qed

section \<open>Claim C7: the integer coercion\<close>




section \<open>Claim C8: at most one batch write per sheet\<close>

text \<open>
  C8.  For each of the four commands, the remote write calls are the non-empty staged
  lists of the sheets, one call per such sheet, in the order of the sheets; so for every
  configured sheet \<open>s\<close> the calls that carry a write to \<open>s\<close> are: none when nothing was staged
  for \<open>s\<close>, and otherwise exactly one, carrying the whole staged list.  (\<open>quotaSheet_fst\<close> and \<open>wordsLoop_fst\<close> show
  that the staged list of a sheet does not depend on the summary accumulated before.)
\<close>

theorem C8_at_most_one_batch_per_sheet:
  assumes "s \<in> set SHEETS"
  shows "q_calls (handleQuotaCheck st) = filter (\<lambda>b. b \<noteq> []) (map (stagedUpdates st) SHEETS)
       \<and> callsFor s (q_calls (handleQuotaCheck st))
           = (if stagedUpdates st s = [] then [] else [stagedUpdates st s])
       \<and> a_calls (handleAdd st input n)
           = filter (\<lambda>b. b \<noteq> []) (map (addStaged st (parseWords input) n) SHEETS)
       \<and> callsFor s (a_calls (handleAdd st input n))
           = (if addStaged st (parseWords input) n s = [] then []
              else [addStaged st (parseWords input) n s])
       \<and> a_calls (handleOfficerAdd st input n)
           = filter (\<lambda>b. b \<noteq> []) (map (officerStaged st (parseWords input) n) SHEETS)
       \<and> callsFor s (a_calls (handleOfficerAdd st input n))
           = (if officerStaged st (parseWords input) n s = [] then []
              else [officerStaged st (parseWords input) n s])
       \<and> a_calls (handleTryoutAdd st input n)
           = filter (\<lambda>b. b \<noteq> []) (map (tryoutStaged st (parseWords input) n) SHEETS)
       \<and> callsFor s (a_calls (handleTryoutAdd st input n))
           = (if tryoutStaged st (parseWords input) n s = [] then []
              else [tryoutStaged st (parseWords input) n s])"
  unfolding handleQuotaCheck_calls handleAdd_calls handleOfficerAdd_calls handleTryoutAdd_calls
  using callsFor_staged[OF distinct_SHEETS assms, of "stagedUpdates st", OF stagedUpdates_sheet]
    callsFor_staged[OF distinct_SHEETS assms, of "addStaged st (parseWords input) n", OF addStaged_sheet]
    callsFor_staged[OF distinct_SHEETS assms, of "officerStaged st (parseWords input) n", OF officerStaged_sheet]
    callsFor_staged[OF distinct_SHEETS assms, of "tryoutStaged st (parseWords input) n", OF tryoutStaged_sheet]
  by simp

theorem C8_witness:
  "''TROOPER_COMPANY'' \<in> set SHEETS \<and> ''TITAN_COMPANY'' \<in> set SHEETS
   \<and> length (q_calls (handleQuotaCheck storeA)) = 1
   \<and> length (callsFor ''TROOPER_COMPANY'' (q_calls (handleQuotaCheck storeA))) = 1
   \<and> length (callsFor ''TITAN_COMPANY'' (q_calls (handleQuotaCheck storeA))) = 0
   \<and> length (callsFor ''TROOPER_COMPANY'' (a_calls (handleAdd storeC ''Alice, Alice'' 5))) = 1
   \<and> length (callsFor ''TITAN_COMPANY'' (a_calls (handleAdd storeC ''Alice, Alice'' 5))) = 0"
proof -
  have s: "''TROOPER_COMPANY'' \<in> set SHEETS" "''TITAN_COMPANY'' \<in> set SHEETS"
    by (simp_all add: SHEETS_def)
  have e: "stagedUpdates storeA ''TROOPER_COMPANY'' \<noteq> []" "stagedUpdates storeA ''TITAN_COMPANY'' = []"
    "addStaged storeC (parseWords ''Alice, Alice'') 5 ''TROOPER_COMPANY'' \<noteq> []"
    "addStaged storeC (parseWords ''Alice, Alice'') 5 ''TITAN_COMPANY'' = []"
    by code_simp+
  have n: "length (filter (\<lambda>b. b \<noteq> []) (map (stagedUpdates storeA) SHEETS)) = 1"
    by code_simp
  from C8_at_most_one_batch_per_sheet[OF s(1), of storeA "''Alice, Alice''" 5]
  have 1: "q_calls (handleQuotaCheck storeA) = filter (\<lambda>b. b \<noteq> []) (map (stagedUpdates storeA) SHEETS)"
    and 2: "callsFor ''TROOPER_COMPANY'' (q_calls (handleQuotaCheck storeA))
              = (if stagedUpdates storeA ''TROOPER_COMPANY'' = [] then []
                 else [stagedUpdates storeA ''TROOPER_COMPANY''])"
    by blast+
  from C8_at_most_one_batch_per_sheet[OF s(2), of storeA "''Alice, Alice''" 5]
  have 3: "callsFor ''TITAN_COMPANY'' (q_calls (handleQuotaCheck storeA))
              = (if stagedUpdates storeA ''TITAN_COMPANY'' = [] then []
                 else [stagedUpdates storeA ''TITAN_COMPANY''])"
    by blast
  from C8_at_most_one_batch_per_sheet[OF s(1), of storeC "''Alice, Alice''" 5]
  have 4: "callsFor ''TROOPER_COMPANY'' (a_calls (handleAdd storeC ''Alice, Alice'' 5))
              = (if addStaged storeC (parseWords ''Alice, Alice'') 5 ''TROOPER_COMPANY'' = [] then []
                 else [addStaged storeC (parseWords ''Alice, Alice'') 5 ''TROOPER_COMPANY''])"
    by blast
  from C8_at_most_one_batch_per_sheet[OF s(2), of storeC "''Alice, Alice''" 5]
  have 5: "callsFor ''TITAN_COMPANY'' (a_calls (handleAdd storeC ''Alice, Alice'' 5))
              = (if addStaged storeC (parseWords ''Alice, Alice'') 5 ''TITAN_COMPANY'' = [] then []
                 else [addStaged storeC (parseWords ''Alice, Alice'') 5 ''TITAN_COMPANY''])"
    by blast
  have "length (q_calls (handleQuotaCheck storeA)) = 1" by (simp only: 1 n)
  moreover have "length (callsFor ''TROOPER_COMPANY'' (q_calls (handleQuotaCheck storeA))) = 1"
    by (simp add: 2 e)
  moreover have "length (callsFor ''TITAN_COMPANY'' (q_calls (handleQuotaCheck storeA))) = 0"
    by (simp add: 3 e)
  moreover have "length (callsFor ''TROOPER_COMPANY'' (a_calls (handleAdd storeC ''Alice, Alice'' 5))) = 1"
    by (simp add: 4 e)
  moreover have "length (callsFor ''TITAN_COMPANY'' (a_calls (handleAdd storeC ''Alice, Alice'' 5))) = 0"
    by (simp add: 5 e)
  ultimately show ?thesis using s by blast
qed

section \<open>Claim C9: the frame of a quota check\<close>

text \<open>
  C9.  Every cell write staged or sent by a quota check addresses one cell of a configured
  sheet, in a row from 7 to 13 or from 19 to 40; this holds for both source files.  (An \<open>update\<close> is
  the address of a single cell by construction.)
\<close>

theorem C9_quotacheck_frame:
  "(\<forall>s\<in>set SHEETS. \<forall>u\<in>set (stagedUpdates st s).
       u_sheet u = s \<and> (7 \<le> u_row u \<and> u_row u \<le> 13 \<or> 19 \<le> u_row u \<and> u_row u \<le> 40))
   \<and> (\<forall>b\<in>set (q_calls (handleQuotaCheck st)). \<forall>u\<in>set b.
       u_sheet u \<in> set SHEETS \<and> (7 \<le> u_row u \<and> u_row u \<le> 13 \<or> 19 \<le> u_row u \<and> u_row u \<le> 40))
   \<and> (\<forall>b\<in>set (q_calls (fst (handleQuotaCheck2 st))). \<forall>u\<in>set b.
       u_sheet u \<in> set SHEETS \<and> (7 \<le> u_row u \<and> u_row u \<le> 13 \<or> 19 \<le> u_row u \<and> u_row u \<le> 40))"
proof -
  have "u_sheet u = s \<and> (7 \<le> u_row u \<and> u_row u \<le> 13 \<or> 19 \<le> u_row u \<and> u_row u \<le> 40)"
    if "u \<in> set (stagedUpdates st s)" for u s
    using quotaSheet_updates_sound[of u st s "[]" "[]"] that
    by (auto simp: stagedUpdates_def liveRow_def)
  then show ?thesis
    using live_calls(1,2)[OF handleQuotaCheck_live] live_calls(1,2)[OF handleQuotaCheck2_live]
    by blast
qed

theorem C9_witness:
  "mkUpdate ''TROOPER_COMPANY'' COL_B 7 (ofInt 0) \<in> set (concat (q_calls (handleQuotaCheck storeA)))
   \<and> mkUpdate ''TROOPER_COMPANY'' COL_G 7 (ofInt 0) \<in> set (concat (q_calls (fst (handleQuotaCheck2 storeA))))
   \<and> u_sheet (mkUpdate ''TROOPER_COMPANY'' COL_B 7 (ofInt 0)) \<in> set SHEETS
   \<and> 7 \<le> u_row (mkUpdate ''TROOPER_COMPANY'' COL_B 7 (ofInt 0))
   \<and> u_row (mkUpdate ''TROOPER_COMPANY'' COL_G 7 (ofInt 0)) \<le> 13"
  using C9_quotacheck_frame[of storeA]
  by (simp add: storeA_calls storeA_calls2 mkUpdate_def)

section \<open>Claim C10: a target named twice is added once\<close>

text \<open>
  C10.  When the target list of the add command names \<open>w\<close> twice and \<open>w\<close> matches row index
  \<open>i\<close> of the grid read from sheet \<open>s\<close>, the writes staged for that row are the same pair
  twice, each value being the original counter plus the amount, both computed from the one
  grid read; the batch is sent, and after the calls the cells hold the original value plus
  the amount once.
\<close>

theorem C10_duplicate_target_adds_once:
  assumes "s \<in> set SHEETS"
    and "findIndex (getValues st s 1 100 COL_D) w = Some i"
    and "count_list (parseWords input) w = 2"
  shows "filter (\<lambda>u. u_row u = i + 1) (addStaged st (parseWords input) n s)
           = [mkUpdate s COL_C (i + 1) (ofInt (coerceInt (cellAt (getValues st s 1 100 COL_D ! i) COL_C) + n)),
              mkUpdate s COL_D (i + 1) (ofInt (coerceInt (cellAt (getValues st s 1 100 COL_D ! i) COL_D) + n)),
              mkUpdate s COL_C (i + 1) (ofInt (coerceInt (cellAt (getValues st s 1 100 COL_D ! i) COL_C) + n)),
              mkUpdate s COL_D (i + 1) (ofInt (coerceInt (cellAt (getValues st s 1 100 COL_D ! i) COL_D) + n))]
       \<and> addStaged st (parseWords input) n s \<in> set (a_calls (handleAdd st input n))
       \<and> applyCalls (a_calls (handleAdd st input n)) (s, COL_C, i + 1)
           = Some (ofInt (coerceInt (cellAt (getValues st s 1 100 COL_D ! i) COL_C) + n))
       \<and> applyCalls (a_calls (handleAdd st input n)) (s, COL_D, i + 1)
           = Some (ofInt (coerceInt (cellAt (getValues st s 1 100 COL_D ! i) COL_D) + n))"
proof -
  define vs where "vs = getValues st s 1 100 COL_D"
  have f: "findIndex vs w = Some i" using assms(2) by (simp only: vs_def)
  have w: "w \<in> set (parseWords input)"
    using assms(3) count_list_0_iff[of "parseWords input" w] by auto
  have "filter (\<lambda>u. u_row u = i + 1) (addStaged st (parseWords input) n s)
          = concat (replicate 2 (addWrites s vs n w))"
    using filter_row_addWrites[OF f, of s n "parseWords input"] assms(3)
    unfolding addStaged_concat vs_def by simp
  then have 1: "filter (\<lambda>u. u_row u = i + 1) (addStaged st (parseWords input) n s)
           = [mkUpdate s COL_C (i + 1) (ofInt (coerceInt (cellAt (vs ! i) COL_C) + n)),
              mkUpdate s COL_D (i + 1) (ofInt (coerceInt (cellAt (vs ! i) COL_D) + n)),
              mkUpdate s COL_C (i + 1) (ofInt (coerceInt (cellAt (vs ! i) COL_C) + n)),
              mkUpdate s COL_D (i + 1) (ofInt (coerceInt (cellAt (vs ! i) COL_D) + n))]"
    by (simp add: addWrites_match[OF f] numeral_2_eq_2)
  show ?thesis
    using 1[unfolded vs_def] addStaged_sent(1)[OF assms(1,2) w, of n]
      overlay_after_add[OF assms(1,2) w, of COL_C n] overlay_after_add[OF assms(1,2) w, of COL_D n]
    by blast
qed


theorem C10_witness:
  "''TROOPER_COMPANY'' \<in> set SHEETS
   \<and> findIndex (getValues storeC ''TROOPER_COMPANY'' 1 100 COL_D) ''Alice'' = Some 2
   \<and> count_list (parseWords ''Alice, Alice'') ''Alice'' = 2
   \<and> a_calls (handleAdd storeC ''Alice, Alice'' 5)
       = [[mkUpdate ''TROOPER_COMPANY'' COL_C 3 (ofInt 15), mkUpdate ''TROOPER_COMPANY'' COL_D 3 (ofInt 7),
           mkUpdate ''TROOPER_COMPANY'' COL_C 3 (ofInt 15), mkUpdate ''TROOPER_COMPANY'' COL_D 3 (ofInt 7)]]
   \<and> applyCalls (a_calls (handleAdd storeC ''Alice, Alice'' 5)) (''TROOPER_COMPANY'', COL_C, 3) = Some (ofInt 15)
   \<and> applyCalls (a_calls (handleAdd storeC ''Alice, Alice'' 5)) (''TROOPER_COMPANY'', COL_D, 3) = Some (ofInt 7)"
proof -
  have s: "''TROOPER_COMPANY'' \<in> set SHEETS" by (simp add: SHEETS_def)
  have f: "findIndex (getValues storeC ''TROOPER_COMPANY'' 1 100 COL_D) ''Alice'' = Some 2"
    by code_simp
  have c: "count_list (parseWords ''Alice, Alice'') ''Alice'' = 2"
    by code_simp
  have v: "coerceInt (cellAt (getValues storeC ''TROOPER_COMPANY'' 1 100 COL_D ! 2) COL_C) = 10"
          "coerceInt (cellAt (getValues storeC ''TROOPER_COMPANY'' 1 100 COL_D ! 2) COL_D) = 2"
    by code_simp+
  have e: "a_calls (handleAdd storeC ''Alice, Alice'' 5)
       = [[mkUpdate ''TROOPER_COMPANY'' COL_C 3 (ofInt 15), mkUpdate ''TROOPER_COMPANY'' COL_D 3 (ofInt 7),
           mkUpdate ''TROOPER_COMPANY'' COL_C 3 (ofInt 15), mkUpdate ''TROOPER_COMPANY'' COL_D 3 (ofInt 7)]]"
    by code_simp
  from C10_duplicate_target_adds_once[OF s f c, of 5] show ?thesis
    using s f c e by (simp add: v[unfolded One_nat_def])
qed

end
